theory Spec2Isabelle
  imports Main "HOL-Library.AList"
begin

section \<open>Values, objects and the heap\<close>

text \<open>
  The repository holds five revisions of the class \<open>DiContainer\<close>. They are told apart by a
  numeric suffix:
  \<^item> \<open>_0\<close>: src/unnamed/part\_000 (variadic batch \<open>inject\<close>, regular expression with \<open>All\<close>);
  \<^item> \<open>_1\<close>: src/src/di.ts, lines 1-170 (variadic batch \<open>inject\<close>, \<open>name in DiContainer.prototype\<close>);
  \<^item> \<open>_2\<close>: src/src/di.ts, lines 171-338 (one descriptor, four traps, forwarding getters);
  \<^item> \<open>_3\<close>: src/src/di.ts, lines 339-507 (one descriptor, four traps, \<open>Object.assign\<close>);
  \<^item> \<open>_4\<close>: src/src/di.ts, lines 508-624 (one class, \<open>get\<close> trap only).

  JavaScript objects live in a heap and are named by references. Service classes and
  factories are the inputs of the container; their constructors store the container they
  are given and initialise data properties, and their methods are written in a small
  expression language that covers the services of the test suite. The container that a
  constructor receives is kept in the field \<open>deps\<close> of the model's object, which is not
  one of its properties.

  A container inherits from \<open>DiContainer.prototype\<close> and \<open>Object.prototype\<close> until an
  assignment to \<open>__proto__\<close> runs the setter of \<open>Object.prototype\<close> and replaces its
  prototype; the heap records the replacement, and a property that the container does
  not own is then looked up on the new prototype.
\<close>

type_synonym name = string
type_synonym cref = nat
type_synonym pref = nat
type_synonym oref = nat

datatype prim = Undefined | Null | Boolean bool | Number int | String string

datatype expr =
    Lit string
  | Cat expr expr
  | ThisField name
  | Dep name name

record service_class =
  getServiceName :: name
  class_fields :: "(name \<times> prim) list"
  class_methods :: "(name \<times> expr) list"

datatype product = Literal "(name \<times> prim) list" "(name \<times> expr) list" | Plain prim

datatype parameters = Dependency service_class | Named name product

text \<open>The prototype objects: of a service class, of \<open>DiContainer\<close>, and the built-in ones.\<close>

datatype proto =
    ClassPrototype service_class
  | ContainerPrototype
  | ObjectPrototype
  | BooleanPrototype
  | NumberPrototype
  | StringPrototype

datatype val =
    VPrim prim
  | VObject oref
  | VProxy pref
  | VFunction expr "val option"
  | VBuiltin name "val option"
  | VPrototype proto

record object =
  deps :: cref
  data :: "(name \<times> prim) list"
  closures :: "(name \<times> expr) list"
  prototype :: proto

datatype handler = GetOnly | AllTraps

record proxy =
  traps :: handler
  owner :: cref
  key :: name
  descriptor :: parameters
  inst :: val

datatype property = Data val | Getter cref name

record heap =
  containers :: "(name \<times> property) list list"
  prototypes :: "(cref \<times> val) list"
  proxies :: "proxy list"
  objects :: "object list"
  constructed :: "pref list"

text \<open>\<open>Error m\<close> is \<open>throw Error(m)\<close>; \<open>TypeError\<close> is raised by the engine (a property of
  \<open>undefined\<close>, a call of something that is no function, a write to an accessor without
  a setter). \<open>Dangling\<close> answers a reference to nothing, which no program creates, and
  \<open>Unmodelled\<close> a step outside the fragment (calling a built-in function, concatenating
  something that is not a string). A computation that does not end is \<open>Diverge\<close>.\<close>

datatype error = Error string | TypeError | Dangling | Unmodelled

datatype 'a outcome = Return 'a heap | Throw error heap | Diverge

definition empty_heap :: heap where
  "empty_heap =
     \<lparr>containers = [], prototypes = [], proxies = [], objects = [], constructed = []\<rparr>"

definition lookup :: "'a list \<Rightarrow> nat \<Rightarrow> 'a option" where
  "lookup xs i = (if i < length xs then Some (xs ! i) else None)"

definition own :: "heap \<Rightarrow> cref \<Rightarrow> (name \<times> property) list" where
  "own h c = (case lookup (containers h) c of Some ps \<Rightarrow> ps | None \<Rightarrow> [])"

definition set_own :: "cref \<Rightarrow> (name \<times> property) list \<Rightarrow> heap \<Rightarrow> heap" where
  "set_own c ps h = h\<lparr>containers := (containers h)[c := ps]\<rparr>"

text \<open>\<open>new DiContainer()\<close>: a fresh object without own properties.\<close>

definition new_DiContainer :: "heap \<Rightarrow> cref \<times> heap" where
  "new_DiContainer h = (length (containers h), h\<lparr>containers := containers h @ [[]]\<rparr>)"

definition truthy :: "val \<Rightarrow> bool" where
  "truthy v = (case v of
       VPrim Undefined \<Rightarrow> False
     | VPrim Null \<Rightarrow> False
     | VPrim (Boolean b) \<Rightarrow> b
     | VPrim (Number n) \<Rightarrow> n \<noteq> 0
     | VPrim (String s) \<Rightarrow> s \<noteq> []
     | _ \<Rightarrow> True)"

definition is_function :: "val \<Rightarrow> bool" where
  "is_function v = (case v of VFunction _ _ \<Rightarrow> True | VBuiltin _ _ \<Rightarrow> True | _ \<Rightarrow> False)"

text \<open>\<open>value.bind(instance)\<close>: a function that is bound already keeps its receiver.\<close>

definition bind :: "val \<Rightarrow> val \<Rightarrow> val" where
  "bind value i = (case value of
       VFunction body None \<Rightarrow> VFunction body (Some i)
     | VBuiltin n None \<Rightarrow> VBuiltin n (Some i)
     | _ \<Rightarrow> value)"

definition object_prototype_keys :: "name list" where
  "object_prototype_keys =
     [''constructor'', ''__defineGetter__'', ''__defineSetter__'', ''hasOwnProperty'',
      ''__lookupGetter__'', ''__lookupSetter__'', ''isPrototypeOf'', ''propertyIsEnumerable'',
      ''toString'', ''valueOf'', ''__proto__'', ''toLocaleString'']"

text \<open>The keys on the prototype chain of a container: the methods of the class, then
  \<open>Object.prototype\<close>.\<close>

definition container_prototype_keys :: "name list" where
  "container_prototype_keys = [''inject'', ''injectContainer''] @ object_prototype_keys"

text \<open>The prototype of the container \<open>c\<close> is still the one of its class.\<close>

definition ordinary :: "heap \<Rightarrow> cref \<Rightarrow> bool" where
  "ordinary h c = (map_of (prototypes h) c = None)"

text \<open>\<open>t[name] = v\<close> in strict mode. An own accessor without a setter refuses the write and
  an own data property takes the value. A name that the container does not own becomes a
  new own data property, except for \<open>__proto__\<close>: that is an accessor of \<open>Object.prototype\<close>,
  whose setter makes an object or \<open>null\<close> the prototype of the container and ignores every
  other value. (After \<open>null\<close> the container inherits nothing, the accessor included.)\<close>

definition assign :: "cref \<Rightarrow> name \<Rightarrow> val \<Rightarrow> heap \<Rightarrow> unit outcome" where
  "assign c n v h =
     (case map_of (own h c) n of
        Some (Getter _ _) \<Rightarrow> Throw TypeError h
      | Some (Data _) \<Rightarrow> Return () (set_own c (AList.update n (Data v) (own h c)) h)
      | None \<Rightarrow>
          if n = ''__proto__'' \<and> map_of (prototypes h) c \<noteq> Some (VPrim Null) then
            (case v of
               VPrim Null \<Rightarrow> Return () (h\<lparr>prototypes := AList.update c v (prototypes h)\<rparr>)
             | VPrim _ \<Rightarrow> Return () h
             | _ \<Rightarrow> Return () (h\<lparr>prototypes := AList.update c v (prototypes h)\<rparr>))
          else Return () (set_own c (AList.update n (Data v) (own h c)) h))"

text \<open>\<open>Object.keys(obj)\<close> on a container: every own property of a container is enumerable.
  The keys are listed in the order of their creation; that JavaScript lists integer-like
  keys first is not modelled.\<close>

definition own_keys :: "heap \<Rightarrow> cref \<Rightarrow> name list" where
  "own_keys h c = map fst (own h c)"

section \<open>Construction of a service\<close>

definition alloc :: "object \<Rightarrow> heap \<Rightarrow> val \<times> heap" where
  "alloc ob h = (VObject (length (objects h)), h\<lparr>objects := objects h @ [ob]\<rparr>)"

text \<open>\<open>new dependency(t)\<close> or \<open>create(t)\<close>, called by the handle \<open>p\<close>: the call is logged,
  which is the construction counter of the tests.\<close>

definition construct :: "parameters \<Rightarrow> cref \<Rightarrow> pref \<Rightarrow> heap \<Rightarrow> val \<times> heap" where
  "construct d t p h =
     (let h1 = h\<lparr>constructed := constructed h @ [p]\<rparr> in
      case d of
        Dependency cls \<Rightarrow>
          alloc \<lparr>deps = t, data = class_fields cls, closures = [], prototype = ClassPrototype cls\<rparr> h1
      | Named n (Literal fs ms) \<Rightarrow>
          alloc \<lparr>deps = t, data = fs, closures = ms, prototype = ObjectPrototype\<rparr> h1
      | Named n (Plain v) \<Rightarrow> (VPrim v, h1))"

definition count :: "heap \<Rightarrow> pref \<Rightarrow> nat" where
  "count h p = length (filter (\<lambda>q. q = p) (constructed h))"

definition set_inst :: "pref \<Rightarrow> val \<Rightarrow> heap \<Rightarrow> heap" where
  "set_inst p v h = h\<lparr>proxies := (proxies h)[p := (proxies h ! p)\<lparr>inst := v\<rparr>]\<rparr>"

text \<open>The methods on a class prototype: \<open>getServiceName\<close> and the declared ones.\<close>

definition prototype_methods :: "service_class \<Rightarrow> (name \<times> expr) list" where
  "prototype_methods cls = (''getServiceName'', Lit (getServiceName cls)) # class_methods cls"

text \<open>The property \<open>n\<close> found on the prototype object \<open>pr\<close> or further up, on
  \<open>Object.prototype\<close>: a method of the class, a built-in function, or nothing.\<close>

definition found_on :: "proto \<Rightarrow> name \<Rightarrow> val" where
  "found_on pr n =
     (case (case pr of ClassPrototype cls \<Rightarrow> map_of (prototype_methods cls) n | _ \<Rightarrow> None) of
        Some body \<Rightarrow> VFunction body None
      | None \<Rightarrow>
          if n \<in> set object_prototype_keys
             \<or> (pr = ContainerPrototype \<and> n \<in> set [''inject'', ''injectContainer''])
          then VBuiltin n None else VPrim Undefined)"

text \<open>What an object whose prototype is \<open>pr\<close> inherits under the name \<open>n\<close>. The accessor
  \<open>__proto__\<close> answers with the prototype of the object.\<close>

definition inherited :: "proto \<Rightarrow> name \<Rightarrow> val" where
  "inherited pr n = (if n = ''__proto__'' then VPrototype pr else found_on pr n)"

text \<open>\<open>instance[property]\<close>.\<close>

definition property_of :: "heap \<Rightarrow> val \<Rightarrow> name \<Rightarrow> error + val" where
  "property_of h i n =
     (case i of
        VPrim Undefined \<Rightarrow> Inl TypeError
      | VPrim Null \<Rightarrow> Inl TypeError
      | VPrim (Boolean b) \<Rightarrow> Inr (inherited BooleanPrototype n)
      | VPrim (Number k) \<Rightarrow> Inr (inherited NumberPrototype n)
      | VPrim (String s) \<Rightarrow> Inr (inherited StringPrototype n)
      | VObject r \<Rightarrow>
          (case lookup (objects h) r of
             None \<Rightarrow> Inl Dangling
           | Some ob \<Rightarrow>
               (case map_of (data ob) n of
                  Some v \<Rightarrow> Inr (VPrim v)
                | None \<Rightarrow>
                    (case map_of (closures ob) n of
                       Some body \<Rightarrow> Inr (VFunction body None)
                     | None \<Rightarrow> Inr (inherited (prototype ob) n))))
      | VPrototype pr \<Rightarrow>
          Inr (if n = ''__proto__''
               then (case pr of ObjectPrototype \<Rightarrow> VPrim Null | _ \<Rightarrow> VPrototype ObjectPrototype)
               else found_on pr n)
      | _ \<Rightarrow> Inr (VPrim Undefined))"

section \<open>The lazy handle\<close>

definition new_Proxy :: "proxy \<Rightarrow> heap \<Rightarrow> pref \<times> heap" where
  "new_Proxy px h = (length (proxies h), h\<lparr>proxies := proxies h @ [px]\<rparr>)"

text \<open>Revisions 2 and 3: \<open>if (!instance) instance = create(t); return instance\<close>.\<close>

definition getInstance :: "pref \<Rightarrow> heap \<Rightarrow> val outcome" where
  "getInstance p h =
     (case lookup (proxies h) p of
        None \<Rightarrow> Throw Dangling h
      | Some px \<Rightarrow>
          if \<not> truthy (inst px) then
            (case construct (descriptor px) (owner px) p h of
               (v, h1) \<Rightarrow> Return v (set_inst p v h1))
          else Return (inst px) h)"

text \<open>Revision 4, and inlined in the \<open>get\<close> trap of revisions 0 and 1:
  \<open>instance ||= (t[name] = new dependency(t))\<close>.\<close>

definition getInstance_4 :: "pref \<Rightarrow> heap \<Rightarrow> val outcome" where
  "getInstance_4 p h =
     (case lookup (proxies h) p of
        None \<Rightarrow> Throw Dangling h
      | Some px \<Rightarrow>
          if truthy (inst px) then Return (inst px) h
          else
            (case construct (descriptor px) (owner px) p h of
               (v, h1) \<Rightarrow>
                 (case assign (owner px) (key px) v h1 of
                    Return _ h2 \<Rightarrow> Return v (set_inst p v h2)
                  | Throw e h2 \<Rightarrow> Throw e h2
                  | Diverge \<Rightarrow> Diverge)))"

definition handler_of :: "heap \<Rightarrow> pref \<Rightarrow> handler" where
  "handler_of h p = (case lookup (proxies h) p of Some px \<Rightarrow> traps px | None \<Rightarrow> AllTraps)"

text \<open>The \<open>get\<close> trap, which every revision has.\<close>

definition get_trap :: "pref \<Rightarrow> name \<Rightarrow> heap \<Rightarrow> val outcome" where
  "get_trap p property h =
     (case (case handler_of h p of GetOnly \<Rightarrow> getInstance_4 p h | AllTraps \<Rightarrow> getInstance p h) of
        Return i h1 \<Rightarrow>
          (case property_of h1 i property of
             Inl e \<Rightarrow> Throw e h1
           | Inr value \<Rightarrow> Return (if is_function value then bind value i else value) h1)
      | Throw e h1 \<Rightarrow> Throw e h1
      | Diverge \<Rightarrow> Diverge)"

text \<open>\<open>Object.getPrototypeOf(x)\<close>, own-property test and own property names of a value.
  The index keys of a string are not modelled.\<close>

definition prototype_of :: "heap \<Rightarrow> val \<Rightarrow> error + proto" where
  "prototype_of h v =
     (case v of
        VPrim Undefined \<Rightarrow> Inl TypeError
      | VPrim Null \<Rightarrow> Inl TypeError
      | VPrim (Boolean b) \<Rightarrow> Inr BooleanPrototype
      | VPrim (Number k) \<Rightarrow> Inr NumberPrototype
      | VPrim (String s) \<Rightarrow> Inr StringPrototype
      | VObject r \<Rightarrow> (case lookup (objects h) r of None \<Rightarrow> Inl Dangling
                       | Some ob \<Rightarrow> Inr (prototype ob))
      | _ \<Rightarrow> Inl Unmodelled)"

definition own_names :: "heap \<Rightarrow> val \<Rightarrow> error + name list" where
  "own_names h v =
     (case v of
        VPrim Undefined \<Rightarrow> Inl TypeError
      | VPrim Null \<Rightarrow> Inl TypeError
      | VPrim (String s) \<Rightarrow> Inr [''length'']
      | VPrim _ \<Rightarrow> Inr []
      | VObject r \<Rightarrow> (case lookup (objects h) r of None \<Rightarrow> Inl Dangling
                       | Some ob \<Rightarrow> Inr (map fst (data ob) @ map fst (closures ob)))
      | _ \<Rightarrow> Inl Unmodelled)"

text \<open>The target of a \<open>get\<close>-only handle is \<open>Object.create(prototype)\<close>: an object without own
  properties whose prototype is the one of the class.\<close>

definition target_prototype :: "heap \<Rightarrow> pref \<Rightarrow> proto" where
  "target_prototype h p =
     (case lookup (proxies h) p of
        Some px \<Rightarrow> (case descriptor px of Dependency cls \<Rightarrow> ClassPrototype cls
                    | Named _ _ \<Rightarrow> ObjectPrototype)
      | None \<Rightarrow> ObjectPrototype)"

definition getPrototypeOf_trap :: "pref \<Rightarrow> heap \<Rightarrow> proto outcome" where
  "getPrototypeOf_trap p h =
     (case handler_of h p of
        GetOnly \<Rightarrow> Return (target_prototype h p) h
      | AllTraps \<Rightarrow>
          (case getInstance p h of
             Return i h1 \<Rightarrow> (case prototype_of h1 i of Inl e \<Rightarrow> Throw e h1
                              | Inr pr \<Rightarrow> Return pr h1)
           | Throw e h1 \<Rightarrow> Throw e h1
           | Diverge \<Rightarrow> Diverge))"

text \<open>The \<open>has\<close> trap of revision 2 is \<open>Object.prototype.hasOwnProperty.call(instance, p)\<close>;
  revision 3 calls \<open>instance.hasOwnProperty(p)\<close>, which is the same as long as the instance
  has no property of that name.\<close>

definition has_trap :: "pref \<Rightarrow> name \<Rightarrow> heap \<Rightarrow> bool outcome" where
  "has_trap p n h =
     (case handler_of h p of
        GetOnly \<Rightarrow> Return (inherited (target_prototype h p) n \<noteq> VPrim Undefined) h
      | AllTraps \<Rightarrow>
          (case getInstance p h of
             Return i h1 \<Rightarrow> (case own_names h1 i of Inl e \<Rightarrow> Throw e h1
                              | Inr ns \<Rightarrow> Return (n \<in> set ns) h1)
           | Throw e h1 \<Rightarrow> Throw e h1
           | Diverge \<Rightarrow> Diverge))"

definition ownKeys_trap :: "pref \<Rightarrow> heap \<Rightarrow> name list outcome" where
  "ownKeys_trap p h =
     (case handler_of h p of
        GetOnly \<Rightarrow> Return [] h
      | AllTraps \<Rightarrow>
          (case getInstance p h of
             Return i h1 \<Rightarrow> (case own_names h1 i of Inl e \<Rightarrow> Throw e h1
                              | Inr ns \<Rightarrow> Return ns h1)
           | Throw e h1 \<Rightarrow> Throw e h1
           | Diverge \<Rightarrow> Diverge))"

section \<open>Calling methods\<close>

text \<open>\<open>v[n]\<close> for any value: a handle answers through its \<open>get\<close> trap.\<close>

definition member :: "val \<Rightarrow> name \<Rightarrow> heap \<Rightarrow> val outcome" where
  "member v n h =
     (case v of
        VProxy p \<Rightarrow> get_trap p n h
      | _ \<Rightarrow> (case property_of h v n of Inl e \<Rightarrow> Throw e h | Inr x \<Rightarrow> Return x h))"

text \<open>\<open>t[name]\<close> on a container. A forwarding getter (revision 2) reads the other container;
  the fuel bounds the length of a chain of getters. A property that the container does
  not own is a method of the class or a member of \<open>Object.prototype\<close>, or is undefined;
  when the prototype was replaced it is read off the new prototype, through the \<open>get\<close> trap
  if that is a handle.\<close>

fun cget :: "nat \<Rightarrow> cref \<Rightarrow> name \<Rightarrow> heap \<Rightarrow> val outcome" where
  "cget 0 c n h = Diverge"
| "cget (Suc k) c n h =
     (case map_of (own h c) n of
        Some (Data v) \<Rightarrow> Return v h
      | Some (Getter other m) \<Rightarrow> cget k other m h
      | None \<Rightarrow>
          (case map_of (prototypes h) c of
             None \<Rightarrow> Return (inherited ContainerPrototype n) h
           | Some (VPrim Null) \<Rightarrow> Return (VPrim Undefined) h
           | Some P \<Rightarrow> member P n h))"

definition read :: "cref \<Rightarrow> name \<Rightarrow> heap \<Rightarrow> val outcome" where
  "read c n h = cget (Suc (length (containers h))) c n h"

text \<open>\<open>key in obj\<close> on a container: an own property, or one of the prototype. A handle as
  prototype answers through its \<open>has\<close> trap or, without one, for its target.\<close>

definition key_in :: "cref \<Rightarrow> name \<Rightarrow> heap \<Rightarrow> bool outcome" where
  "key_in c n h =
     (if n \<in> set (map fst (own h c)) then Return True h
      else
        (case map_of (prototypes h) c of
           None \<Rightarrow> Return (n \<in> set container_prototype_keys) h
         | Some (VProxy p) \<Rightarrow> has_trap p n h
         | Some (VObject r) \<Rightarrow>
             (case lookup (objects h) r of
                None \<Rightarrow> Throw Dangling h
              | Some ob \<Rightarrow>
                  Return (n \<in> set (map fst (data ob) @ map fst (closures ob))
                          \<or> inherited (prototype ob) n \<noteq> VPrim Undefined) h)
         | Some (VPrototype pr) \<Rightarrow> Return (inherited pr n \<noteq> VPrim Undefined) h
         | Some _ \<Rightarrow> Return False h))"

text \<open>Method bodies: a string literal, a concatenation, \<open>this.f\<close> and
  \<open>this.deps.service.method()\<close>. \<open>invoke k v m\<close> is the call \<open>v.m()\<close>; the fuel \<open>k\<close> bounds
  the depth of nested calls, and a call that needs more does not return.\<close>

fun eval :: "nat \<Rightarrow> val \<Rightarrow> expr \<Rightarrow> heap \<Rightarrow> val outcome"
  and invoke :: "nat \<Rightarrow> val \<Rightarrow> name \<Rightarrow> heap \<Rightarrow> val outcome" where
  "eval k this (Lit s) h = Return (VPrim (String s)) h"
| "eval k this (Cat a b) h =
     (case eval k this a h of
        Return (VPrim (String x)) h1 \<Rightarrow>
          (case eval k this b h1 of
             Return (VPrim (String y)) h2 \<Rightarrow> Return (VPrim (String (x @ y))) h2
           | Return _ h2 \<Rightarrow> Throw Unmodelled h2
           | Throw e h2 \<Rightarrow> Throw e h2
           | Diverge \<Rightarrow> Diverge)
      | Return _ h1 \<Rightarrow> Throw Unmodelled h1
      | Throw e h1 \<Rightarrow> Throw e h1
      | Diverge \<Rightarrow> Diverge)"
| "eval k this (ThisField f) h =
     (case property_of h this f of Inl e \<Rightarrow> Throw e h | Inr v \<Rightarrow> Return v h)"
| "eval k this (Dep service m) h =
     (case this of
        VObject r \<Rightarrow>
          (case lookup (objects h) r of
             None \<Rightarrow> Throw Dangling h
           | Some ob \<Rightarrow>
               (case read (deps ob) service h of
                  Return handle h1 \<Rightarrow> invoke k handle m h1
                | Throw e h1 \<Rightarrow> Throw e h1
                | Diverge \<Rightarrow> Diverge))
      | _ \<Rightarrow> Throw TypeError h)"
| "invoke 0 receiver m h = Diverge"
| "invoke (Suc k) receiver m h =
     (case member receiver m h of
        Return f h1 \<Rightarrow>
          (case f of
             VFunction body bound \<Rightarrow>
               eval k (case bound of Some t \<Rightarrow> t | None \<Rightarrow> receiver) body h1
           | VBuiltin _ _ \<Rightarrow> Throw Unmodelled h1
           | _ \<Rightarrow> Throw TypeError h1)
      | Throw e h1 \<Rightarrow> Throw e h1
      | Diverge \<Rightarrow> Diverge)"


section \<open>Registration\<close>

definition fail :: "string \<Rightarrow> heap \<Rightarrow> 'a outcome" where
  "fail message h = Throw (Error message) h"

text \<open>\<open>t[name] = new Proxy(Object.create(prototype), {get})\<close> and \<open>this[name] = lazy\<close>.\<close>

definition lazy :: "handler \<Rightarrow> cref \<Rightarrow> name \<Rightarrow> parameters \<Rightarrow> proxy" where
  "lazy tr t n d = \<lparr>traps = tr, owner = t, key = n, descriptor = d, inst = VPrim Undefined\<rparr>"

text \<open>The tests that pick the wording of the message in the \<open>get\<close>-only revisions:
  \<open>/^inject(Container|All)?$/\<close>, \<open>name in DiContainer.prototype\<close> and
  \<open>/^inject(Container)?$/\<close>.\<close>

definition reserved_0 :: "name \<Rightarrow> bool" where
  "reserved_0 n = (n = ''inject'' \<or> n = ''injectContainer'' \<or> n = ''injectAll'')"

definition reserved_1 :: "name \<Rightarrow> bool" where
  "reserved_1 n = (n \<in> set container_prototype_keys)"

definition reserved_4 :: "name \<Rightarrow> bool" where
  "reserved_4 n = (n = ''inject'' \<or> n = ''injectContainer'')"

text \<open>The body of the reducer of revisions 0 and 1, which is also the body of \<open>inject\<close> in
  revision 4: the name is refused when \<open>t[name]\<close> is truthy.\<close>

definition reducer :: "(name \<Rightarrow> bool) \<Rightarrow> cref \<Rightarrow> service_class \<Rightarrow> heap \<Rightarrow> cref outcome" where
  "reducer reserved t dependency h =
     (let n = getServiceName dependency in
      case read t n h of
        Return v h0 \<Rightarrow>
          if truthy v then
            fail ((if reserved n then ''Reserv'' else ''Duplicat'') @ ''ed service name: '' @ n) h0
          else
            (case new_Proxy (lazy GetOnly t n (Dependency dependency)) h0 of
               (p, h1) \<Rightarrow>
                 (case assign t n (VProxy p) h1 of
                    Return _ h2 \<Rightarrow> Return t h2
                  | Throw e h2 \<Rightarrow> Throw e h2
                  | Diverge \<Rightarrow> Diverge))
      | Throw e h0 \<Rightarrow> Throw e h0
      | Diverge \<Rightarrow> Diverge)"

text \<open>\<open>dependencies.reduce(..., this)\<close>.\<close>

fun reduce :: "(name \<Rightarrow> bool) \<Rightarrow> service_class list \<Rightarrow> cref \<Rightarrow> heap \<Rightarrow> cref outcome" where
  "reduce reserved [] t h = Return t h"
| "reduce reserved (dependency # dependencies) t h =
     (case reducer reserved t dependency h of
        Return t1 h1 \<Rightarrow> reduce reserved dependencies t1 h1
      | Throw e h1 \<Rightarrow> Throw e h1
      | Diverge \<Rightarrow> Diverge)"

definition inject_0 :: "cref \<Rightarrow> service_class list \<Rightarrow> heap \<Rightarrow> cref outcome" where
  "inject_0 this dependencies h = reduce reserved_0 dependencies this h"

definition inject_1 :: "cref \<Rightarrow> service_class list \<Rightarrow> heap \<Rightarrow> cref outcome" where
  "inject_1 this dependencies h = reduce reserved_1 dependencies this h"

definition inject_4 :: "cref \<Rightarrow> service_class \<Rightarrow> heap \<Rightarrow> cref outcome" where
  "inject_4 this dependency h = reducer reserved_4 this dependency h"

text \<open>Revisions 2 and 3 take one class, or a name and a factory, and test own properties.\<close>

definition ReservedFields :: "name list" where
  "ReservedFields = [''inject'', ''injectContainer'']"

definition name_of :: "parameters \<Rightarrow> name" where
  "name_of ps = (case ps of Dependency cls \<Rightarrow> getServiceName cls | Named n _ \<Rightarrow> n)"

text \<open>Revision 2: \<open>Object.prototype.hasOwnProperty.call(obj, key)\<close>.\<close>

definition has_2 :: "heap \<Rightarrow> cref \<Rightarrow> name \<Rightarrow> bool" where
  "has_2 h obj k = (k \<in> set (own_keys h obj))"

text \<open>Revision 3: \<open>obj.hasOwnProperty(key)\<close>, which looks the method up on the container
  itself; a handle stored under that name is not callable. The method of
  \<open>Object.prototype\<close> tests the own properties of its receiver: the container, or the
  instance that a \<open>get\<close> trap bound it to.\<close>

definition has_3 :: "heap \<Rightarrow> cref \<Rightarrow> name \<Rightarrow> bool outcome" where
  "has_3 h obj k =
     (case read obj ''hasOwnProperty'' h of
        Return (VBuiltin _ None) h1 \<Rightarrow> Return (k \<in> set (own_keys h1 obj)) h1
      | Return (VBuiltin _ (Some i)) h1 \<Rightarrow>
          (case own_names h1 i of Inl e \<Rightarrow> Throw e h1 | Inr ns \<Rightarrow> Return (k \<in> set ns) h1)
      | Return (VFunction _ _) h1 \<Rightarrow> Throw Unmodelled h1
      | Return _ h1 \<Rightarrow> Throw TypeError h1
      | Throw e h1 \<Rightarrow> Throw e h1
      | Diverge \<Rightarrow> Diverge)"

definition inject_2 :: "cref \<Rightarrow> parameters \<Rightarrow> heap \<Rightarrow> cref outcome" where
  "inject_2 this ps h =
     (let n = name_of ps in
      case new_Proxy (lazy AllTraps this n ps) h of
        (p, h1) \<Rightarrow>
          if n \<in> set ReservedFields then fail (''Reserved field name: '' @ n) h1
          else if has_2 h1 this n then fail (''Duplicate service name: '' @ n) h1
          else
            (case assign this n (VProxy p) h1 of
               Return _ h2 \<Rightarrow> Return this h2
             | Throw e h2 \<Rightarrow> Throw e h2
             | Diverge \<Rightarrow> Diverge))"

definition inject_3 :: "cref \<Rightarrow> parameters \<Rightarrow> heap \<Rightarrow> cref outcome" where
  "inject_3 this ps h =
     (let n = name_of ps in
      case new_Proxy (lazy AllTraps this n ps) h of
        (p, h1) \<Rightarrow>
          if n \<in> set ReservedFields then fail (''Reserved field name: '' @ n) h1
          else
            (case has_3 h1 this n of
               Return dup h2 \<Rightarrow>
                 if dup then fail (''Duplicate service name: '' @ n) h2
                 else
                   (case assign this n (VProxy p) h2 of
                      Return _ h3 \<Rightarrow> Return this h3
                    | Throw e h3 \<Rightarrow> Throw e h3
                    | Diverge \<Rightarrow> Diverge)
             | Throw e h2 \<Rightarrow> Throw e h2
             | Diverge \<Rightarrow> Diverge))"

section \<open>Merging containers\<close>

text \<open>\<open>Object.assign(this, other)\<close>: every own enumerable key of \<open>other\<close> is read there and
  written here.\<close>

fun assign_keys :: "cref \<Rightarrow> cref \<Rightarrow> name list \<Rightarrow> heap \<Rightarrow> unit outcome" where
  "assign_keys this other [] h = Return () h"
| "assign_keys this other (k # ks) h =
     (case read other k h of
        Return v h0 \<Rightarrow>
          (case assign this k v h0 of
             Return _ h1 \<Rightarrow> assign_keys this other ks h1
           | Throw e h1 \<Rightarrow> Throw e h1
           | Diverge \<Rightarrow> Diverge)
      | Throw e h0 \<Rightarrow> Throw e h0
      | Diverge \<Rightarrow> Diverge)"

definition Object_assign :: "cref \<Rightarrow> cref \<Rightarrow> heap \<Rightarrow> cref outcome" where
  "Object_assign this other h =
     (case assign_keys this other (own_keys h other) h of
        Return _ h1 \<Rightarrow> Return this h1
      | Throw e h1 \<Rightarrow> Throw e h1
      | Diverge \<Rightarrow> Diverge)"

text \<open>Revision 1: \<open>for (let key in other) if (this[key]) throw ...\<close>.\<close>

fun check_1 :: "cref \<Rightarrow> name list \<Rightarrow> heap \<Rightarrow> unit outcome" where
  "check_1 this [] h = Return () h"
| "check_1 this (k # ks) h =
     (case read this k h of
        Return v h1 \<Rightarrow>
          if truthy v then Throw (Error (''Containers have duplicated keys: '' @ k)) h1
          else check_1 this ks h1
      | Throw e h1 \<Rightarrow> Throw e h1
      | Diverge \<Rightarrow> Diverge)"

definition injectContainer_1 :: "cref \<Rightarrow> cref \<Rightarrow> heap \<Rightarrow> cref outcome" where
  "injectContainer_1 this other h =
     (case check_1 this (own_keys h other) h of
        Return _ h1 \<Rightarrow> Object_assign this other h1
      | Throw e h1 \<Rightarrow> Throw e h1
      | Diverge \<Rightarrow> Diverge)"

text \<open>Revisions 0 and 4: \<open>for (let key in other) if (key in this) ...\<close>.\<close>

fun check_0 :: "cref \<Rightarrow> name list \<Rightarrow> heap \<Rightarrow> unit outcome" where
  "check_0 this [] h = Return () h"
| "check_0 this (k # ks) h =
     (case key_in this k h of
        Return found h1 \<Rightarrow>
          if found then fail (''Containers have duplicated keys: '' @ k) h1
          else check_0 this ks h1
      | Throw e h1 \<Rightarrow> Throw e h1
      | Diverge \<Rightarrow> Diverge)"

definition injectContainer_0 :: "cref \<Rightarrow> cref \<Rightarrow> heap \<Rightarrow> cref outcome" where
  "injectContainer_0 this other h =
     (case check_0 this (own_keys h other) h of
        Return _ h1 \<Rightarrow> Object_assign this other h1
      | Throw e h1 \<Rightarrow> Throw e h1
      | Diverge \<Rightarrow> Diverge)"

text \<open>Revision 2: \<open>eachOwn(other, callback)\<close> runs over \<open>Object.keys(other)\<close>, first to
  validate, then to define a forwarding getter for every key.\<close>

fun eachOwn_check :: "cref \<Rightarrow> name list \<Rightarrow> heap \<Rightarrow> unit outcome" where
  "eachOwn_check this [] h = Return () h"
| "eachOwn_check this (k # ks) h =
     (if has_2 h this k then fail (''Containers have duplicated keys: '' @ k) h
      else eachOwn_check this ks h)"

text \<open>\<open>Object.defineProperty(this, key, {enumerable: true, get: () => other[key]})\<close>: an
  accessor defined this way is not configurable and cannot be defined again.\<close>

definition defineProperty :: "cref \<Rightarrow> name \<Rightarrow> cref \<Rightarrow> heap \<Rightarrow> unit outcome" where
  "defineProperty this k other h =
     (case map_of (own h this) k of
        Some (Getter _ _) \<Rightarrow> Throw TypeError h
      | _ \<Rightarrow> Return () (set_own this (AList.update k (Getter other k) (own h this)) h))"

fun eachOwn_define :: "cref \<Rightarrow> cref \<Rightarrow> name list \<Rightarrow> heap \<Rightarrow> unit outcome" where
  "eachOwn_define this other [] h = Return () h"
| "eachOwn_define this other (k # ks) h =
     (case defineProperty this k other h of
        Return _ h1 \<Rightarrow> eachOwn_define this other ks h1
      | Throw e h1 \<Rightarrow> Throw e h1
      | Diverge \<Rightarrow> Diverge)"

definition injectContainer_2 :: "cref \<Rightarrow> cref \<Rightarrow> heap \<Rightarrow> cref outcome" where
  "injectContainer_2 this other h =
     (case eachOwn_check this (own_keys h other) h of
        Return _ h1 \<Rightarrow>
          (case eachOwn_define this other (own_keys h1 other) h1 of
             Return _ h2 \<Rightarrow> Return this h2
           | Throw e h2 \<Rightarrow> Throw e h2
           | Diverge \<Rightarrow> Diverge)
      | Throw e h1 \<Rightarrow> Throw e h1
      | Diverge \<Rightarrow> Diverge)"

text \<open>Revision 3: \<open>keys(other).forEach(...)\<close> over \<open>Object.getOwnPropertyNames(other)\<close>, then
  \<open>Object.assign\<close>.\<close>

fun check_3 :: "cref \<Rightarrow> name list \<Rightarrow> heap \<Rightarrow> unit outcome" where
  "check_3 this [] h = Return () h"
| "check_3 this (k # ks) h =
     (case has_3 h this k of
        Return dup h1 \<Rightarrow>
          if dup then fail (''Containers have duplicated keys: '' @ k) h1
          else check_3 this ks h1
      | Throw e h1 \<Rightarrow> Throw e h1
      | Diverge \<Rightarrow> Diverge)"

definition injectContainer_3 :: "cref \<Rightarrow> cref \<Rightarrow> heap \<Rightarrow> cref outcome" where
  "injectContainer_3 this other h =
     (case check_3 this (own_keys h other) h of
        Return _ h1 \<Rightarrow> Object_assign this other h1
      | Throw e h1 \<Rightarrow> Throw e h1
      | Diverge \<Rightarrow> Diverge)"

section \<open>Observations and the services of the test suite\<close>

definition returned :: "'a outcome \<Rightarrow> 'a option" where
  "returned r = (case r of Return x _ \<Rightarrow> Some x | _ \<Rightarrow> None)"

definition heap_of :: "'a outcome \<Rightarrow> heap option" where
  "heap_of r = (case r of Return _ h \<Rightarrow> Some h | Throw _ h \<Rightarrow> Some h | Diverge \<Rightarrow> None)"

text \<open>\<open>container.inject(...)\<close> in revision 2, as a caller writes it: the method is looked
  up on the container before it is applied.\<close>

definition call_inject_2 :: "cref \<Rightarrow> parameters \<Rightarrow> heap \<Rightarrow> cref outcome" where
  "call_inject_2 c ps h =
     (case read c ''inject'' h of
        Return (VBuiltin m None) h1 \<Rightarrow>
          if m = ''inject'' then inject_2 c ps h1 else Throw Unmodelled h1
      | Return (VBuiltin m (Some i)) h1 \<Rightarrow> Throw Unmodelled h1
      | Return (VFunction body bound) h1 \<Rightarrow> Throw Unmodelled h1
      | Return _ h1 \<Rightarrow> Throw TypeError h1
      | Throw e h1 \<Rightarrow> Throw e h1
      | Diverge \<Rightarrow> Diverge)"

text \<open>A container as the \<open>get\<close>-only revisions build it: allocated, with the prototype of
  its class and with data properties only.\<close>

definition plain :: "heap \<Rightarrow> cref \<Rightarrow> bool" where
  "plain h c =
     (c < length (containers h) \<and> ordinary h c
      \<and> list_all (\<lambda>kp. case snd kp of Data _ \<Rightarrow> True | Getter _ _ \<Rightarrow> False) (own h c))"

text \<open>The property of the container \<open>c\<close> under the name of the class \<open>x\<close> is the lazy handle
  that a \<open>get\<close>-only registration of \<open>x\<close> created, not yet initialised.\<close>

definition installed :: "heap \<Rightarrow> cref \<Rightarrow> service_class \<Rightarrow> bool" where
  "installed h c x =
     (case map_of (own h c) (getServiceName x) of
        Some (Data (VProxy p)) \<Rightarrow>
          lookup (proxies h) p = Some (lazy GetOnly c (getServiceName x) (Dependency x))
      | _ \<Rightarrow> False)"

text \<open>\<open>container.service.method()\<close> on the container that a registration returned.\<close>

definition call_service :: "nat \<Rightarrow> name \<Rightarrow> name \<Rightarrow> cref outcome \<Rightarrow> val outcome" where
  "call_service k s m r =
     (case r of
        Return t h \<Rightarrow>
          (case read t s h of
             Return handle h1 \<Rightarrow> invoke k handle m h1
           | Throw e h1 \<Rightarrow> Throw e h1
           | Diverge \<Rightarrow> Diverge)
      | Throw e h \<Rightarrow> Throw e h
      | Diverge \<Rightarrow> Diverge)"

text \<open>\<open>ServiceA\<close>, \<open>ServiceB\<close> and \<open>ServiceC\<close> of the batch tests: \<open>getValue\<close> returns
  \<open>"A"\<close>, \<open>`B${this.deps.a.getValue()}`\<close> and
  \<open>`C${this.deps.a.getValue()}${this.deps.b.getValue()}`\<close>.\<close>

definition ServiceA :: service_class where
  "ServiceA = \<lparr>getServiceName = ''a'', class_fields = [],
     class_methods = [(''getValue'', Lit ''A'')]\<rparr>"

definition ServiceB :: service_class where
  "ServiceB = \<lparr>getServiceName = ''b'', class_fields = [],
     class_methods = [(''getValue'', Cat (Lit ''B'') (Dep ''a'' ''getValue''))]\<rparr>"

definition ServiceC :: service_class where
  "ServiceC = \<lparr>getServiceName = ''c'', class_fields = [],
     class_methods =
       [(''getValue'', Cat (Cat (Lit ''C'') (Dep ''a'' ''getValue'')) (Dep ''b'' ''getValue''))]\<rparr>"

text \<open>A fresh container in an empty heap.\<close>

definition container0 :: cref where
  "container0 = fst (new_DiContainer empty_heap)"

definition heap0 :: heap where
  "heap0 = snd (new_DiContainer empty_heap)"

text \<open>In the \<open>get\<close>-only revisions a registered name holds its handle or, after the first
  property read, the instance.\<close>

definition registered_1 :: "heap \<Rightarrow> cref \<Rightarrow> name \<Rightarrow> bool" where
  "registered_1 h t n =
     (case map_of (own h t) n of
        Some (Data (VProxy _)) \<Rightarrow> True
      | Some (Data (VObject _)) \<Rightarrow> True
      | _ \<Rightarrow> False)"

definition heap_after :: "'a outcome \<Rightarrow> heap" where
  "heap_after r = (case r of Return _ h \<Rightarrow> h | Throw _ h \<Rightarrow> h | Diverge \<Rightarrow> empty_heap)"

definition heapA :: heap where
  "heapA = heap_after (inject_0 container0 [ServiceA] heap0)"

text \<open>The services of the duplicate and reserved-name tests.\<close>

definition S1 :: service_class where
  "S1 = \<lparr>getServiceName = ''s1'', class_fields = [], class_methods = []\<rparr>"

definition S1_Duplicate :: service_class where
  "S1_Duplicate = \<lparr>getServiceName = ''s1'', class_fields = [], class_methods = []\<rparr>"

definition ReservedService :: service_class where
  "ReservedService = \<lparr>getServiceName = ''inject'', class_fields = [], class_methods = []\<rparr>"

definition heapS1 :: heap where
  "heapS1 = heap_after (inject_2 container0 (Dependency S1) heap0)"

text \<open>\<open>LazyService\<close> of the lazy-construction tests.\<close>

definition LazyService :: service_class where
  "LazyService = \<lparr>getServiceName = ''lazy'', class_fields = [],
     class_methods = [(''foo'', Lit ''bar'')]\<rparr>"

definition heapL2 :: heap where
  "heapL2 = heap_after (inject_2 container0 (Dependency LazyService) heap0)"

definition heapL1 :: heap where
  "heapL1 = heap_after (inject_1 container0 [LazyService] heap0)"

text \<open>A property of heaps holds after a computation, if the computation ends.\<close>

definition keeps :: "(heap \<Rightarrow> bool) \<Rightarrow> 'a outcome \<Rightarrow> bool" where
  "keeps P r = (case r of Return _ h \<Rightarrow> P h | Throw _ h \<Rightarrow> P h | Diverge \<Rightarrow> True)"

text \<open>The state of a handle: \<open>Some i\<close> once it is initialised with the instance \<open>i\<close>.\<close>

definition state_of :: "heap \<Rightarrow> pref \<Rightarrow> val option" where
  "state_of h p =
     (case lookup (proxies h) p of
        Some px \<Rightarrow> if truthy (inst px) then Some (inst px) else None
      | None \<Rightarrow> None)"

text \<open>What a handle can be asked, with the fuel for the method calls. The heap afterwards
  is the one in which the caller goes on, whether the interaction returned or threw.\<close>

datatype interaction =
    PropertyRead name
  | MethodCall name
  | PrototypeQuery
  | MembershipTest name
  | KeyEnumeration

fun interact :: "nat \<Rightarrow> pref \<Rightarrow> interaction \<Rightarrow> heap \<Rightarrow> heap option" where
  "interact k p (PropertyRead n) h = heap_of (get_trap p n h)"
| "interact k p (MethodCall n) h = heap_of (invoke k (VProxy p) n h)"
| "interact k p PrototypeQuery h = heap_of (getPrototypeOf_trap p h)"
| "interact k p (MembershipTest n) h = heap_of (has_trap p n h)"
| "interact k p KeyEnumeration h = heap_of (ownKeys_trap p h)"

fun interactions :: "nat \<Rightarrow> pref \<Rightarrow> interaction list \<Rightarrow> heap \<Rightarrow> heap option" where
  "interactions k p [] h = Some h"
| "interactions k p (i # is) h =
     (case interact k p i h of None \<Rightarrow> None | Some h1 \<Rightarrow> interactions k p is h1)"

definition reads :: "interaction \<Rightarrow> bool" where
  "reads i = (case i of PropertyRead _ \<Rightarrow> True | MethodCall _ \<Rightarrow> True | _ \<Rightarrow> False)"

text \<open>A class always constructs an object; a factory may return a falsy primitive.\<close>

definition constructs_truthy :: "parameters \<Rightarrow> bool" where
  "constructs_truthy d = (case d of Named _ (Plain v) \<Rightarrow> truthy (VPrim v) | _ \<Rightarrow> True)"

text \<open>The property \<open>n\<close> of the container \<open>c\<close> can be assigned to: it is not an accessor.\<close>

definition assignable :: "heap \<Rightarrow> cref \<Rightarrow> name \<Rightarrow> bool" where
  "assignable h c n = (case map_of (own h c) n of Some (Getter _ _) \<Rightarrow> False | _ \<Rightarrow> True)"

text \<open>An assignment to \<open>c[n]\<close> stores the value in the own data property \<open>n\<close> of the
  container \<open>c\<close>: the property can be assigned to and, if the name is \<open>__proto__\<close>, which
  \<open>Object.prototype\<close> defines as an accessor, the container owns it.\<close>

definition storable :: "heap \<Rightarrow> cref \<Rightarrow> name \<Rightarrow> bool" where
  "storable h c n =
     (assignable h c n \<and> (n = ''__proto__'' \<longrightarrow> n \<in> set (own_keys h c)))"

text \<open>Between two heaps, the handle \<open>p\<close> was constructed once and is initialised.\<close>

definition constructed_now :: "heap \<Rightarrow> pref \<Rightarrow> heap \<Rightarrow> bool" where
  "constructed_now h p h' = (count h' p = Suc (count h p) \<and> state_of h' p \<noteq> None)"

text \<open>The heaps of the lazy-construction tests after the first call or read of \<open>foo\<close>.\<close>

definition heapL2' :: heap where
  "heapL2' = heap_after (invoke 1 (VProxy 0) ''foo'' heapL2)"

definition heapL1' :: heap where
  "heapL1' = heap_after (get_trap 0 ''foo'' heapL1)"

definition heapL4 :: heap where
  "heapL4 = heap_after (inject_4 container0 LazyService heap0)"

text \<open>The construction count of \<open>p\<close> after a computation that ends.\<close>

definition count_after :: "'a outcome \<Rightarrow> pref \<Rightarrow> nat option" where
  "count_after r p = map_option (\<lambda>h. count h p) (heap_of r)"

text \<open>The factory \<open>() => 0\<close> registered as \<open>zero\<close> in revision 2.\<close>

definition heapZ :: heap where
  "heapZ = heap_after (inject_2 container0 (Named ''zero'' (Plain (Number 0))) heap0)"

text \<open>The closure variable \<open>instance\<close> of a handle.\<close>

definition instance_of :: "heap \<Rightarrow> pref \<Rightarrow> val" where
  "instance_of h p = (case lookup (proxies h) p of Some px \<Rightarrow> inst px | None \<Rightarrow> VPrim Undefined)"




text \<open>Every handle of the heap traps all four operations (revisions 2 and 3).\<close>

definition all_traps :: "heap \<Rightarrow> bool" where
  "all_traps h = list_all (\<lambda>px. traps px = AllTraps) (proxies h)"

text \<open>Two fresh containers; the target registers a service named \<open>hasOwnProperty\<close> with
  the factory \<open>() => ({})\<close>, the source registers \<open>S1\<close>.\<close>

definition heapM0 :: heap where
  "heapM0 = snd (new_DiContainer heap0)"

definition heapM3 :: heap where
  "heapM3 = heap_after (inject_3 1 (Dependency S1)
      (heap_after (inject_3 0 (Named ''hasOwnProperty'' (Literal [] [])) heapM0)))"

definition heapM2 :: heap where
  "heapM2 = heap_after (inject_2 1 (Dependency S1)
      (heap_after (inject_2 0 (Named ''hasOwnProperty'' (Literal [] [])) heapM0)))"

text \<open>A class named \<open>__proto__\<close>, and the heap after
  \<open>container.inject("__proto__", () => ({}))\<close> in revision 2.\<close>

definition ProtoService :: service_class where
  "ProtoService = \<lparr>getServiceName = ''__proto__'', class_fields = [], class_methods = []\<rparr>"

definition heapP :: heap where
  "heapP = heap_after (call_inject_2 container0 (Named ''__proto__'' (Literal [] [])) heap0)"

section \<open>Properties\<close>

lemmas model_defs =
  new_DiContainer_def empty_heap_def container0_def heap0_def
  inject_0_def inject_1_def inject_4_def reducer_def read_def own_def lookup_def
  truthy_def fail_def new_Proxy_def lazy_def assign_def set_own_def
  reserved_0_def reserved_1_def reserved_4_def
  container_prototype_keys_def object_prototype_keys_def
  ServiceA_def ServiceB_def ServiceC_def
  member_def get_trap_def handler_of_def getInstance_def getInstance_4_def construct_def
  alloc_def set_inst_def property_of_def inherited_def prototype_methods_def
  is_function_def bind_def returned_def heap_of_def call_service_def Let_def
  found_on_def ordinary_def

lemmas test_defs = model_defs heapA_def heap_after_def heapS1_def S1_def S1_Duplicate_def
  ReservedService_def inject_2_def inject_3_def has_2_def has_3_def own_keys_def name_of_def
  ReservedFields_def registered_1_def count_def

subsection \<open>Forward references within a batch\<close>

text \<open>
  C7. In the batch revisions (0 and 1), registering \<open>ServiceC\<close>, \<open>ServiceA\<close>, \<open>ServiceB\<close> in one
  call, in this order, succeeds although \<open>c\<close> is listed before the services it depends on,
  and \<open>container.c.getValue()\<close> returns \<open>"CABA"\<close> (with fuel for three nested calls or more).
\<close>

theorem batch_forward_references_CABA:
  "returned (call_service (3 + k) ''c'' ''getValue''
      (inject_0 container0 [ServiceC, ServiceA, ServiceB] heap0))
     = Some (VPrim (String ''CABA''))
   \<and> returned (call_service (3 + k) ''c'' ''getValue''
      (inject_1 container0 [ServiceC, ServiceA, ServiceB] heap0))
     = Some (VPrim (String ''CABA''))"
  by (simp add: model_defs numeral_3_eq_3)

subsection \<open>Own properties after an update\<close>

lemma own_set_own_same: "c < length (containers h) \<Longrightarrow> own (set_own c ps h) c = ps"
  by (simp add: own_def set_own_def lookup_def)

lemma own_set_own_other: "c' \<noteq> c \<Longrightarrow> own (set_own c ps h) c' = own h c'"
  by (simp add: own_def set_own_def lookup_def)

lemma own_proxies_upd: "own (h\<lparr>proxies := ps\<rparr>) c = own h c"
  by (simp add: own_def)

lemma own_prototypes_upd: "own (h\<lparr>prototypes := ps\<rparr>) c = own h c"
  by (simp add: own_def)

lemma containers_set_own: "length (containers (set_own c ps h)) = length (containers h)"
  and objects_set_own: "objects (set_own c ps h) = objects h"
  and constructed_set_own: "constructed (set_own c ps h) = constructed h"
  and proxies_set_own: "proxies (set_own c ps h) = proxies h"
  and prototypes_set_own: "prototypes (set_own c ps h) = prototypes h"
  by (simp_all add: set_own_def)

lemma read_own_data: "map_of (own h c) n = Some (Data v) \<Longrightarrow> read c n h = Return v h"
  by (simp add: read_def)

lemma read_not_own:
  "map_of (own h c) n = None \<Longrightarrow> ordinary h c \<Longrightarrow>
   read c n h = Return (inherited ContainerPrototype n) h"
  by (simp add: read_def ordinary_def)

lemma truthy_inherited:
  "truthy (inherited ContainerPrototype n) = (n \<in> set container_prototype_keys)"
  by (auto simp: inherited_def found_on_def truthy_def container_prototype_keys_def
      object_prototype_keys_def)

lemma proto_is_inherited: "''__proto__'' \<in> set container_prototype_keys"
  by (simp add: container_prototype_keys_def object_prototype_keys_def)

lemma update_subset: "set (AList.update k v al) \<subseteq> insert (k, v) (set al)"
  by (induction al) auto

lemma data_only_map_of:
  assumes "list_all (\<lambda>kp. case snd kp of Data _ \<Rightarrow> True | Getter _ _ \<Rightarrow> False) ps"
  shows "map_of ps n \<noteq> Some (Getter other m)"
proof
  assume "map_of ps n = Some (Getter other m)"
  then have "(n, Getter other m) \<in> set ps" by (rule map_of_SomeD)
  with assms show False by (auto simp: list_all_iff)
qed

subsection \<open>The reducer of the batch revisions\<close>

text \<open>On a plain container a read is a lookup: it returns the own value or what the class
  and \<open>Object.prototype\<close> provide, and leaves the heap as it is.\<close>

lemma read_plain:
  assumes "plain h c"
  shows "read c n h =
     Return (case map_of (own h c) n of Some (Data v) \<Rightarrow> v
             | _ \<Rightarrow> inherited ContainerPrototype n) h"
proof (cases "map_of (own h c) n")
  case None
  with assms read_not_own[of h c n] show ?thesis by (simp add: plain_def)
next
  case (Some pr)
  show ?thesis
  proof (cases pr)
    case (Data v)
    with Some read_own_data[of h c n v] show ?thesis by simp
  next
    case (Getter other m)
    with Some assms data_only_map_of[of "own h c" n other m] show ?thesis
      by (simp add: plain_def)
  qed
qed

lemma assign_fresh:
  assumes "map_of (own h c) n \<noteq> Some (Getter other m)" and "\<forall>other m. map_of (own h c) n \<noteq> Some (Getter other m)"
    and "map_of (own h c) n = None \<longrightarrow> n \<noteq> ''__proto__''"
  shows "assign c n v h = Return () (set_own c (AList.update n (Data v) (own h c)) h)"
proof (cases "map_of (own h c) n")
  case None
  with assms(3) show ?thesis by (simp add: assign_def)
next
  case (Some pr)
  with assms(2) show ?thesis by (cases pr) (simp_all add: assign_def)
qed

text \<open>The reducer on a plain container, in one equation.\<close>

lemma reducer_plain:
  assumes "plain h t"
  shows "reducer r t d h =
     (if truthy (case map_of (own h t) (getServiceName d) of Some (Data v) \<Rightarrow> v
                 | _ \<Rightarrow> inherited ContainerPrototype (getServiceName d))
      then Throw (Error ((if r (getServiceName d) then ''Reserv'' else ''Duplicat'')
                          @ ''ed service name: '' @ getServiceName d)) h
      else Return t (set_own t (AList.update (getServiceName d)
              (Data (VProxy (length (proxies h)))) (own h t))
              (h\<lparr>proxies := proxies h @ [lazy GetOnly t (getServiceName d) (Dependency d)]\<rparr>)))"
proof -
  let ?n = "getServiceName d"
  let ?v = "case map_of (own h t) ?n of Some (Data v) \<Rightarrow> v | _ \<Rightarrow> inherited ContainerPrototype ?n"
  let ?h1 = "h\<lparr>proxies := proxies h @ [lazy GetOnly t ?n (Dependency d)]\<rparr>"
  note rd = read_plain[OF assms, of ?n]
  show ?thesis
  proof (cases "truthy ?v")
    case True
    with rd show ?thesis by (simp add: reducer_def Let_def fail_def)
  next
    case False
    have g: "\<forall>other m. map_of (own ?h1 t) ?n \<noteq> Some (Getter other m)"
      using assms data_only_map_of[of "own h t" ?n] by (simp add: plain_def own_proxies_upd)
    have p: "map_of (own ?h1 t) ?n = None \<longrightarrow> ?n \<noteq> ''__proto__''"
    proof
      assume "map_of (own ?h1 t) ?n = None"
      then have "?v = inherited ContainerPrototype ?n" by (simp add: own_proxies_upd)
      with False truthy_inherited[of ?n] proto_is_inherited show "?n \<noteq> ''__proto__''" by auto
    qed
    from g have g1: "map_of (own ?h1 t) ?n \<noteq> Some (Getter 0 [])" by blast
    have a: "assign t ?n (VProxy (length (proxies h))) ?h1
        = Return () (set_own t (AList.update ?n (Data (VProxy (length (proxies h)))) (own ?h1 t)) ?h1)"
      using g1 g p by (rule assign_fresh)
    have o: "own ?h1 t = own h t" by (simp add: own_proxies_upd)
    from rd False a show ?thesis
      unfolding o by (simp add: reducer_def Let_def new_Proxy_def)
  qed
qed

lemma reducer_Return:
  assumes "plain h t" and "reducer r t d h = Return t' h'"
  shows "t' = t \<and> h' = set_own t (AList.update (getServiceName d)
            (Data (VProxy (length (proxies h)))) (own h t))
            (h\<lparr>proxies := proxies h @ [lazy GetOnly t (getServiceName d) (Dependency d)]\<rparr>)"
    and "\<not> truthy (case map_of (own h t) (getServiceName d) of Some (Data v) \<Rightarrow> v
                 | _ \<Rightarrow> inherited ContainerPrototype (getServiceName d))"
  using assms(2) unfolding reducer_plain[OF assms(1)] by (auto split: if_splits)

lemma reducer_Throw:
  assumes "plain h t" and "reducer r t d h = Throw e h'"
  shows "h' = h"
  using assms(2) unfolding reducer_plain[OF assms(1)] by (auto split: if_splits)

lemma plain_step:
  assumes "plain h t"
  shows "plain (set_own t (AList.update n (Data v) (own h t)) (h\<lparr>proxies := ps\<rparr>)) t"
proof -
  let ?h1 = "set_own t (AList.update n (Data v) (own h t)) (h\<lparr>proxies := ps\<rparr>)"
  from assms have len: "t < length (containers (h\<lparr>proxies := ps\<rparr>))" by (simp add: plain_def)
  have o: "own ?h1 t = AList.update n (Data v) (own h t)"
    using own_set_own_same[OF len] by simp
  have "list_all (\<lambda>kp. case snd kp of Data _ \<Rightarrow> True | Getter _ _ \<Rightarrow> False)
          (AList.update n (Data v) (own h t))"
    using assms update_subset[of n "Data v" "own h t"]
    by (auto simp: plain_def list_all_iff)
  with o assms show ?thesis
    by (simp add: plain_def ordinary_def containers_set_own prototypes_set_own)
qed

lemma reducer_Return_facts:
  assumes "plain h t" and "reducer r t d h = Return t' h'"
  shows "t' = t" and "plain h' t"
    and "map_of (own h' t) = (map_of (own h t))(getServiceName d \<mapsto> Data (VProxy (length (proxies h))))"
    and "set (own_keys h' t) = insert (getServiceName d) (set (own_keys h t))"
    and "objects h' = objects h" and "constructed h' = constructed h"
    and "proxies h' = proxies h @ [lazy GetOnly t (getServiceName d) (Dependency d)]"
proof -
  note r = reducer_Return(1)[OF assms]
  from assms(1) have len: "t < length (containers h)" by (simp add: plain_def)
  from r show "t' = t" by simp
  from r plain_step[OF assms(1)] show "plain h' t" by simp
  from r len show
    "map_of (own h' t) = (map_of (own h t))(getServiceName d \<mapsto> Data (VProxy (length (proxies h))))"
    "set (own_keys h' t) = insert (getServiceName d) (set (own_keys h t))"
    "objects h' = objects h" "constructed h' = constructed h"
    "proxies h' = proxies h @ [lazy GetOnly t (getServiceName d) (Dependency d)]"
    by (simp_all add: own_set_own_same own_proxies_upd update_conv' own_keys_def dom_update
        objects_set_own constructed_set_own proxies_set_own)
qed

lemma reduce_Return:
  assumes "plain h t" and "reduce r ds t h = Return t' h'"
  shows "t' = t \<and> plain h' t
       \<and> set (own_keys h' t) = getServiceName ` set ds \<union> set (own_keys h t)
       \<and> objects h' = objects h \<and> constructed h' = constructed h"
  using assms
proof (induction ds arbitrary: h)
  case Nil
  then show ?case by simp
next
  case (Cons d ds)
  from Cons.prems(2) obtain t1 h1 where
    step: "reducer r t d h = Return t1 h1" and rest: "reduce r ds t1 h1 = Return t' h'"
    by (auto split: outcome.splits)
  note f = reducer_Return_facts[OF Cons.prems(1) step]
  from rest f(1) have rest': "reduce r ds t h1 = Return t' h'" by simp
  from Cons.IH[OF f(2) rest']
  have ih: "t' = t \<and> plain h' t
       \<and> set (own_keys h' t) = getServiceName ` set ds \<union> set (own_keys h1 t)
       \<and> objects h' = objects h1 \<and> constructed h' = constructed h1" by simp
  with f show ?case by auto
qed

lemma reduce_append_Throw:
  assumes "reduce r ds1 t h = Return t1 h1" and "reducer r t1 d h1 = Throw e h2"
  shows "reduce r (ds1 @ d # ds2) t h = Throw e h2"
  using assms
  by (induction ds1 arbitrary: t h) (auto split: outcome.splits)

lemma registered_1_read:
  "registered_1 h t n \<Longrightarrow> \<exists>v. read t n h = Return v h \<and> truthy v"
  by (auto simp: registered_1_def read_def truthy_def
      split: option.splits property.splits val.splits)

lemma reducer_registered:
  assumes "registered_1 h t (getServiceName d)"
  shows "reducer r t d h =
     Throw (Error ((if r (getServiceName d) then ''Reserv'' else ''Duplicat'')
                    @ ''ed service name: '' @ getServiceName d)) h"
  using registered_1_read[OF assms]
  by (auto simp: reducer_def Let_def fail_def)

lemma reducer_keeps_registered:
  assumes "plain h t" and "reducer r t d h = Return t' h'"
    and "registered_1 h t n \<or> n = getServiceName d"
  shows "registered_1 h' t n"
  using reducer_Return_facts(3)[OF assms(1,2)] assms(3)
  by (auto simp: registered_1_def)

lemma reduce_registered:
  assumes "plain h t" and "reduce r ds t h = Return t' h'"
    and "registered_1 h t n \<or> n \<in> getServiceName ` set ds"
  shows "registered_1 h' t n"
  using assms
proof (induction ds arbitrary: h)
  case Nil
  then show ?case by simp
next
  case (Cons d ds)
  from Cons.prems(2) obtain t1 h1 where
    step: "reducer r t d h = Return t1 h1" and rest: "reduce r ds t1 h1 = Return t' h'"
    by (auto split: outcome.splits)
  note f = reducer_Return_facts[OF Cons.prems(1) step]
  from rest f(1) have rest': "reduce r ds t h1 = Return t' h'" by simp
  have "registered_1 h1 t n \<or> n \<in> getServiceName ` set ds"
    using Cons.prems(3) reducer_keeps_registered[OF Cons.prems(1) step, of n] by auto
  from Cons.IH[OF f(2) rest' this] show ?case .
qed

text \<open>A registration leaves the handles of earlier registrations where they are: it
  succeeds only under a name that holds no handle, and it appends to the proxies.\<close>

lemma installed_truthy:
  assumes "installed h t x"
  shows "truthy (case map_of (own h t) (getServiceName x) of Some (Data v) \<Rightarrow> v
                 | _ \<Rightarrow> inherited ContainerPrototype (getServiceName x))"
  using assms
  by (auto simp: installed_def truthy_def split: option.splits property.splits val.splits)

lemma lookup_append: "lookup xs p = Some y \<Longrightarrow> lookup (xs @ zs) p = Some y"
  by (auto simp: lookup_def nth_append split: if_splits)

lemma reducer_keeps_installed:
  assumes "plain h t" and "reducer r t d h = Return t' h'" and "installed h t x"
  shows "installed h' t x"
proof -
  note f = reducer_Return_facts[OF assms(1,2)]
  have ne: "getServiceName x \<noteq> getServiceName d"
  proof
    assume e: "getServiceName x = getServiceName d"
    from installed_truthy[OF assms(3)] reducer_Return(2)[OF assms(1,2)] show False
      unfolding e by blast
  qed
  from assms(3) obtain p where
    m: "map_of (own h t) (getServiceName x) = Some (Data (VProxy p))"
    and l: "lookup (proxies h) p = Some (lazy GetOnly t (getServiceName x) (Dependency x))"
    by (auto simp: installed_def split: option.splits property.splits val.splits)
  from m ne f(3) have "map_of (own h' t) (getServiceName x) = Some (Data (VProxy p))" by simp
  moreover from l f(7)
  have "lookup (proxies h') p = Some (lazy GetOnly t (getServiceName x) (Dependency x))"
    by (simp add: lookup_append)
  ultimately show ?thesis by (simp add: installed_def)
qed

lemma reducer_installs:
  assumes "plain h t" and "reducer r t d h = Return t' h'"
  shows "installed h' t d"
  using reducer_Return_facts(3,7)[OF assms]
  by (simp add: installed_def lookup_def)

lemma reduce_installed:
  assumes "plain h t" and "reduce r ds t h = Return t' h'"
    and "installed h t x \<or> x \<in> set ds"
  shows "installed h' t x"
  using assms
proof (induction ds arbitrary: h)
  case Nil
  then show ?case by simp
next
  case (Cons d ds)
  from Cons.prems(2) obtain t1 h1 where
    step: "reducer r t d h = Return t1 h1" and rest: "reduce r ds t1 h1 = Return t' h'"
    by (auto split: outcome.splits)
  note f = reducer_Return_facts[OF Cons.prems(1) step]
  from rest f(1) have rest': "reduce r ds t h1 = Return t' h'" by simp
  have "installed h1 t x \<or> x \<in> set ds"
    using Cons.prems(3) reducer_keeps_installed[OF Cons.prems(1) step, of x]
      reducer_installs[OF Cons.prems(1) step] by auto
  from Cons.IH[OF f(2) rest' this] show ?case .
qed

subsection \<open>A failing batch keeps what it registered\<close>

text \<open>
  C9. In the batch revisions (0 and 1), on a container as these revisions build it: when
  the descriptors \<open>ds1\<close> register and the next descriptor \<open>d\<close> is refused, the call as a
  whole throws the error of \<open>d\<close> and nothing is rolled back. In the heap that the failed
  call leaves, the property under the name of every service \<open>x\<close> of \<open>ds1\<close> is still the
  lazy handle that the call created for \<open>x\<close> (an uninitialised proxy with the \<open>get\<close> trap,
  for this container, this name and this class), and the name is an own key.
\<close>

theorem batch_registration_is_partial:
  assumes "plain h this"
  shows "(inject_0 this ds1 h = Return t1 h1 \<longrightarrow> inject_0 t1 [d] h1 = Throw e h2 \<longrightarrow>
            inject_0 this (ds1 @ d # ds2) h = Throw e h2
            \<and> (\<forall>x \<in> set ds1. installed h2 this x
                  \<and> getServiceName x \<in> set (own_keys h2 this)))
       \<and> (inject_1 this ds1 h = Return t1 h1 \<longrightarrow> inject_1 t1 [d] h1 = Throw e h2 \<longrightarrow>
            inject_1 this (ds1 @ d # ds2) h = Throw e h2
            \<and> (\<forall>x \<in> set ds1. installed h2 this x
                  \<and> getServiceName x \<in> set (own_keys h2 this)))"
proof -
  have main: "reduce r ds1 this h = Return t1 h1 \<Longrightarrow>
      reduce r [d] t1 h1 = Throw e h2 \<Longrightarrow>
      reduce r (ds1 @ d # ds2) this h = Throw e h2
      \<and> (\<forall>x \<in> set ds1. installed h2 this x
            \<and> getServiceName x \<in> set (own_keys h2 this))" for r
  proof -
    assume pre: "reduce r ds1 this h = Return t1 h1" and bad: "reduce r [d] t1 h1 = Throw e h2"
    from bad have thr: "reducer r t1 d h1 = Throw e h2" by (auto split: outcome.splits)
    note p = reduce_Return[OF assms pre]
    from p thr have "h2 = h1" using reducer_Throw[of h1 t1 r d e h2] by simp
    moreover have "installed h1 this x" if "x \<in> set ds1" for x
      using reduce_installed[OF assms pre, of x] that by simp
    moreover from p have "getServiceName x \<in> set (own_keys h1 this)" if "x \<in> set ds1" for x
      using that by auto
    ultimately show ?thesis using reduce_append_Throw[OF pre thr] by auto
  qed
  show ?thesis
    using main[of reserved_0] main[of reserved_1]
    by (simp add: inject_0_def inject_1_def)
qed

text \<open>The test \<open>inject(ServiceA, ServiceA)\<close>: the call throws and \<open>a\<close> stays registered, with
  the handle of the first \<open>ServiceA\<close>.\<close>

theorem batch_registration_is_partial_witness:
  "plain heap0 container0
   \<and> inject_0 container0 [ServiceA] heap0 = Return container0 heapA
   \<and> inject_0 container0 [ServiceA] heapA = Throw (Error ''Duplicated service name: a'') heapA
   \<and> inject_1 container0 [ServiceA] heap0 = Return container0 heapA
   \<and> inject_1 container0 [ServiceA] heapA = Throw (Error ''Duplicated service name: a'') heapA
   \<and> inject_0 container0 [ServiceA, ServiceA] heap0
        = Throw (Error ''Duplicated service name: a'') heapA
   \<and> inject_1 container0 [ServiceA, ServiceA] heap0
        = Throw (Error ''Duplicated service name: a'') heapA
   \<and> installed heapA container0 ServiceA
   \<and> map_of (own heapA container0) ''a'' = Some (Data (VProxy 0))
   \<and> lookup (proxies heapA) 0 = Some (lazy GetOnly container0 ''a'' (Dependency ServiceA))
   \<and> getServiceName ServiceA \<in> set (own_keys heapA container0)"
proof -
  have v: "plain heap0 container0"
    by (simp add: model_defs plain_def ordinary_def)
  have a: "inject_0 container0 [ServiceA] heap0 = Return container0 heapA"
    "inject_1 container0 [ServiceA] heap0 = Return container0 heapA"
    by (simp_all add: model_defs heapA_def heap_after_def)
  have b: "inject_0 container0 [ServiceA] heapA = Throw (Error ''Duplicated service name: a'') heapA"
    "inject_1 container0 [ServiceA] heapA = Throw (Error ''Duplicated service name: a'') heapA"
    by (simp_all add: model_defs heapA_def heap_after_def)
  have c: "map_of (own heapA container0) ''a'' = Some (Data (VProxy 0))"
    "lookup (proxies heapA) 0 = Some (lazy GetOnly container0 ''a'' (Dependency ServiceA))"
    by (simp_all add: model_defs heapA_def heap_after_def)
  from batch_registration_is_partial[OF v, of "[ServiceA]" container0 heapA ServiceA
      "Error ''Duplicated service name: a''" heapA "[]"] a b c v
  show ?thesis by simp
qed

subsection \<open>Duplicate names\<close>

text \<open>A name that the container owns is refused. Revision 1: the name holds a handle or an
  instance (first conjunct, a later call), or was registered by an earlier descriptor of
  the same call (second conjunct; the heap is the one after the earlier descriptors).
  Revision 2: the name is an own property of the container; only an unreferenced proxy
  has been allocated. The error message ends with the name and the properties of the
  container stay as they were.\<close>

lemma own_name_is_refused:
  "(registered_1 h this (getServiceName d) \<longrightarrow>
      inject_1 this (d # ds) h =
        Throw (Error ((if reserved_1 (getServiceName d) then ''Reserv'' else ''Duplicat'')
                       @ ''ed service name: '' @ getServiceName d)) h)
   \<and> (plain h this \<longrightarrow> inject_1 this ds1 h = Return t1 h1 \<longrightarrow>
        d0 \<in> set ds1 \<longrightarrow> getServiceName d0 = getServiceName d \<longrightarrow>
        registered_1 h1 this (getServiceName d)
        \<and> inject_1 this (ds1 @ d # ds2) h =
            Throw (Error ((if reserved_1 (getServiceName d) then ''Reserv'' else ''Duplicat'')
                           @ ''ed service name: '' @ getServiceName d)) h1)
   \<and> (map_of (own h this) (name_of ps) \<noteq> None \<longrightarrow>
        (inject_2 this ps h = Throw (Error (''Duplicate service name: '' @ name_of ps))
              (snd (new_Proxy (lazy AllTraps this (name_of ps) ps) h))
         \<or> inject_2 this ps h = Throw (Error (''Reserved field name: '' @ name_of ps))
              (snd (new_Proxy (lazy AllTraps this (name_of ps) ps) h)))
        \<and> containers (snd (new_Proxy (lazy AllTraps this (name_of ps) ps) h)) = containers h)"
proof (intro conjI impI)
  assume "registered_1 h this (getServiceName d)"
  from reducer_registered[OF this, of reserved_1]
  show "inject_1 this (d # ds) h =
        Throw (Error ((if reserved_1 (getServiceName d) then ''Reserv'' else ''Duplicat'')
                       @ ''ed service name: '' @ getServiceName d)) h"
    by (simp add: inject_1_def)
next
  assume v: "plain h this" and pre: "inject_1 this ds1 h = Return t1 h1"
    and mem: "d0 \<in> set ds1" and same: "getServiceName d0 = getServiceName d"
  from pre have pre': "reduce reserved_1 ds1 this h = Return t1 h1" by (simp add: inject_1_def)
  from mem same have "getServiceName d \<in> getServiceName ` set ds1" by (metis image_eqI)
  with reduce_registered[OF v pre', of "getServiceName d"]
  show reg: "registered_1 h1 this (getServiceName d)" by simp
  from reduce_Return[OF v pre'] have "t1 = this" by simp
  with reducer_registered[OF reg, of reserved_1] reduce_append_Throw[OF pre', of d _ h1 ds2]
  show "inject_1 this (ds1 @ d # ds2) h =
            Throw (Error ((if reserved_1 (getServiceName d) then ''Reserv'' else ''Duplicat'')
                           @ ''ed service name: '' @ getServiceName d)) h1"
    by (simp add: inject_1_def)
next
  assume "map_of (own h this) (name_of ps) \<noteq> None"
  then have "name_of ps \<in> fst ` set (own h this)" by (simp add: map_of_eq_None_iff)
  then show "inject_2 this ps h = Throw (Error (''Duplicate service name: '' @ name_of ps))
              (snd (new_Proxy (lazy AllTraps this (name_of ps) ps) h))
         \<or> inject_2 this ps h = Throw (Error (''Reserved field name: '' @ name_of ps))
              (snd (new_Proxy (lazy AllTraps this (name_of ps) ps) h))"
    by (simp add: inject_2_def Let_def new_Proxy_def fail_def has_2_def own_keys_def own_def)
next
  show "containers (snd (new_Proxy (lazy AllTraps this (name_of ps) ps) h)) = containers h"
    by (simp add: new_Proxy_def)
qed

text \<open>The tests \<open>inject(ServiceA, ServiceA)\<close> and \<open>inject(S1)\<close> followed by \<open>inject(S1_Duplicate)\<close>.\<close>

lemma duplicate_tests:
  "inject_1 container0 [ServiceA] heapA = Throw (Error ''Duplicated service name: a'') heapA
   \<and> inject_1 container0 [ServiceA] heap0 = Return container0 heapA
   \<and> inject_1 container0 [ServiceA, ServiceA] heap0
       = Throw (Error ''Duplicated service name: a'') heapA
   \<and> inject_2 container0 (Dependency S1_Duplicate) heapS1
       = Throw (Error ''Duplicate service name: s1'')
           (snd (new_Proxy (lazy AllTraps container0 ''s1'' (Dependency S1_Duplicate)) heapS1))
   \<and> own heapS1 container0 = [(''s1'', Data (VProxy 0))]"
  by (simp add: test_defs)

text \<open>The \<open>get\<close>-only revisions refuse the name \<open>__proto__\<close>: \<open>t[name]\<close> is the prototype of
  the container, which is truthy.\<close>

lemma proto_is_refused_by_batch:
  "inject_0 container0 [ProtoService] heap0
      = Throw (Error ''Duplicated service name: __proto__'') heap0
   \<and> inject_1 container0 [ProtoService] heap0
      = Throw (Error ''Reserved service name: __proto__'') heap0
   \<and> inject_4 container0 ProtoService heap0
      = Throw (Error ''Duplicated service name: __proto__'') heap0"
  by (simp add: test_defs ProtoService_def)

text \<open>
  C4, at the failing input. Revision 2 does not refuse a second registration under the
  name \<open>__proto__\<close>. The first call \<open>container.inject("__proto__", () => ({}))\<close> passes both
  tests and returns the container, which has no own key afterwards: the assignment
  \<open>this[name] = lazy\<close> has run the setter of \<open>Object.prototype\<close> and made the handle the
  prototype of the container. The same call again throws no error that names
  \<open>__proto__\<close>: it ends in a \<open>TypeError\<close>, because \<open>container.inject\<close> is now read through
  the handle and is undefined on the instance; and \<open>inject\<close> applied to the container
  directly accepts the name once more and makes the second handle the prototype.
\<close>

theorem proto_is_registered_twice:
  "call_inject_2 container0 (Named ''__proto__'' (Literal [] [])) heap0
      = Return container0 heapP
   \<and> own_keys heapP container0 = []
   \<and> map_of (prototypes heapP) container0 = Some (VProxy 0)
   \<and> call_inject_2 container0 (Named ''__proto__'' (Literal [] [])) heapP
      = Throw TypeError (heap_after (read container0 ''inject'' heapP))
   \<and> inject_2 container0 (Named ''__proto__'' (Literal [] [])) heapP
      = Return container0
          (heap_after (inject_2 container0 (Named ''__proto__'' (Literal [] [])) heapP))
   \<and> own_keys (heap_after (inject_2 container0 (Named ''__proto__'' (Literal [] [])) heapP))
        container0 = []
   \<and> map_of (prototypes
        (heap_after (inject_2 container0 (Named ''__proto__'' (Literal [] [])) heapP)))
        container0 = Some (VProxy 1)"
  by (simp add: test_defs heapP_def call_inject_2_def)

subsection \<open>Reserved names\<close>

text \<open>
  C6. A descriptor named \<open>inject\<close> or \<open>injectContainer\<close> is refused with a reserved-name
  error and the container keeps exactly the properties it had. Revisions 2 and 3 test the
  name against \<open>ReservedFields\<close> before anything else (only an unreferenced proxy has
  been allocated); revisions 0, 1 and 4 find the method of the same name on the container,
  which has the prototype of its class and no own property that hides the method.
\<close>

theorem reserved_name_is_refused:
  "(name_of ps \<in> set ReservedFields \<longrightarrow>
      inject_2 this ps h = Throw (Error (''Reserved field name: '' @ name_of ps))
          (snd (new_Proxy (lazy AllTraps this (name_of ps) ps) h))
      \<and> inject_3 this ps h = Throw (Error (''Reserved field name: '' @ name_of ps))
          (snd (new_Proxy (lazy AllTraps this (name_of ps) ps) h))
      \<and> containers (snd (new_Proxy (lazy AllTraps this (name_of ps) ps) h)) = containers h
      \<and> prototypes (snd (new_Proxy (lazy AllTraps this (name_of ps) ps) h)) = prototypes h)
   \<and> (getServiceName d \<in> set ReservedFields \<longrightarrow> ordinary h this \<longrightarrow>
      map_of (own h this) (getServiceName d) = None \<longrightarrow>
      inject_0 this (d # ds) h = Throw (Error (''Reserved service name: '' @ getServiceName d)) h
      \<and> inject_1 this (d # ds) h = Throw (Error (''Reserved service name: '' @ getServiceName d)) h
      \<and> inject_4 this d h = Throw (Error (''Reserved service name: '' @ getServiceName d)) h)"
proof (intro conjI impI)
  assume "name_of ps \<in> set ReservedFields"
  then show "inject_2 this ps h = Throw (Error (''Reserved field name: '' @ name_of ps))
          (snd (new_Proxy (lazy AllTraps this (name_of ps) ps) h))"
    and "inject_3 this ps h = Throw (Error (''Reserved field name: '' @ name_of ps))
          (snd (new_Proxy (lazy AllTraps this (name_of ps) ps) h))"
    by (simp_all add: inject_2_def inject_3_def Let_def fail_def split: prod.splits)
next
  show "containers (snd (new_Proxy (lazy AllTraps this (name_of ps) ps) h)) = containers h"
    by (simp add: new_Proxy_def)
next
  show "prototypes (snd (new_Proxy (lazy AllTraps this (name_of ps) ps) h)) = prototypes h"
    by (simp add: new_Proxy_def)
next
  assume res: "getServiceName d \<in> set ReservedFields" and ord: "ordinary h this"
    and free: "map_of (own h this) (getServiceName d) = None"
  from res have k: "getServiceName d \<in> set container_prototype_keys"
    by (auto simp: ReservedFields_def container_prototype_keys_def)
  from res have r: "reserved_0 (getServiceName d)" "reserved_1 (getServiceName d)"
    "reserved_4 (getServiceName d)"
    by (auto simp: ReservedFields_def reserved_0_def reserved_1_def reserved_4_def
        container_prototype_keys_def)
  have red: "reducer r t d h = Throw (Error (''Reserved service name: '' @ getServiceName d)) h"
    if "r (getServiceName d)" and "t = this" for r t
    using that read_not_own[OF free ord] k truthy_inherited[of "getServiceName d"]
    by (simp add: reducer_def Let_def fail_def)
  from red r show
    "inject_0 this (d # ds) h = Throw (Error (''Reserved service name: '' @ getServiceName d)) h"
    "inject_1 this (d # ds) h = Throw (Error (''Reserved service name: '' @ getServiceName d)) h"
    "inject_4 this d h = Throw (Error (''Reserved service name: '' @ getServiceName d)) h"
    by (simp_all add: inject_0_def inject_1_def inject_4_def)
qed

text \<open>The test of a service named \<open>inject\<close>.\<close>

theorem reserved_name_is_refused_witness:
  "name_of (Dependency ReservedService) \<in> set ReservedFields
   \<and> getServiceName ReservedService \<in> set ReservedFields
   \<and> ordinary heap0 container0
   \<and> map_of (own heap0 container0) (getServiceName ReservedService) = None
   \<and> inject_2 container0 (Dependency ReservedService) heap0
       = Throw (Error ''Reserved field name: inject'')
          (snd (new_Proxy (lazy AllTraps container0 ''inject'' (Dependency ReservedService)) heap0))
   \<and> containers (snd (new_Proxy (lazy AllTraps container0 ''inject''
          (Dependency ReservedService)) heap0)) = [[]]
   \<and> inject_1 container0 [ReservedService] heap0
       = Throw (Error ''Reserved service name: inject'') heap0"
proof -
  have a: "name_of (Dependency ReservedService) \<in> set ReservedFields"
    "getServiceName ReservedService \<in> set ReservedFields"
    "map_of (own heap0 container0) (getServiceName ReservedService) = None"
    "ordinary heap0 container0"
    by (simp_all add: test_defs)
  have b: "name_of (Dependency ReservedService) = ''inject''"
    "getServiceName ReservedService = ''inject''" "containers heap0 = [[]]"
    by (simp_all add: test_defs)
  from reserved_name_is_refused[of "Dependency ReservedService" container0 heap0
      ReservedService "[]"] a b
  show ?thesis by simp
qed


subsection \<open>Retrieving a handle\<close>

text \<open>A registration of revision 2 that returns has appended the handle and either
  created the own property or, for the name \<open>__proto__\<close>, replaced the prototype.\<close>

lemma inject_2_Return:
  assumes "inject_2 this ps h = Return t h'"
  shows "t = this"
    and "map_of (own h this) (name_of ps) = None"
    and "h' = (if name_of ps = ''__proto__'' \<and> map_of (prototypes h) this \<noteq> Some (VPrim Null)
               then h\<lparr>proxies := proxies h @ [lazy AllTraps this (name_of ps) ps],
                      prototypes := AList.update this (VProxy (length (proxies h))) (prototypes h)\<rparr>
               else set_own this (AList.update (name_of ps)
                      (Data (VProxy (length (proxies h)))) (own h this))
                      (h\<lparr>proxies := proxies h @ [lazy AllTraps this (name_of ps) ps]\<rparr>))"
proof -
  let ?h1 = "h\<lparr>proxies := proxies h @ [lazy AllTraps this (name_of ps) ps]\<rparr>"
  from assms have nr: "name_of ps \<notin> set ReservedFields" and nh: "\<not> has_2 ?h1 this (name_of ps)"
    and a: "(case assign this (name_of ps) (VProxy (length (proxies h))) ?h1 of
               Return _ h2 \<Rightarrow> Return this h2 | Throw e h2 \<Rightarrow> Throw e h2 | Diverge \<Rightarrow> Diverge)
            = Return t h'"
    by (auto simp: inject_2_def Let_def fail_def new_Proxy_def split: if_splits)
  from nh have free: "map_of (own ?h1 this) (name_of ps) = None"
    by (simp add: has_2_def own_keys_def map_of_eq_None_iff)
  then show "map_of (own h this) (name_of ps) = None" by (simp add: own_proxies_upd)
  from a free show "t = this"
    by (auto simp: assign_def split: if_splits val.splits prim.splits)
  from a free show "h' = (if name_of ps = ''__proto__'' \<and> map_of (prototypes h) this \<noteq> Some (VPrim Null)
               then h\<lparr>proxies := proxies h @ [lazy AllTraps this (name_of ps) ps],
                      prototypes := AList.update this (VProxy (length (proxies h))) (prototypes h)\<rparr>
               else set_own this (AList.update (name_of ps)
                      (Data (VProxy (length (proxies h)))) (own h this))
                      (h\<lparr>proxies := proxies h @ [lazy AllTraps this (name_of ps) ps]\<rparr>))"
    by (auto simp: assign_def own_proxies_upd split: if_splits)
qed

lemma installed_handle:
  assumes "h' = set_own t (AList.update n (Data (VProxy (length (proxies h)))) (own h t))
            (h\<lparr>proxies := proxies h @ [px]\<rparr>)"
    and "t < length (containers h)"
  shows "read t n h' = Return (VProxy (length (proxies h))) h'"
    and "lookup (proxies h') (length (proxies h)) = Some px"
    and "constructed h' = constructed h"
    and "(\<forall>q \<in> set (constructed h). q < length (proxies h)) \<Longrightarrow> count h' (length (proxies h)) = 0"
proof -
  have "map_of (own h' t) n = Some (Data (VProxy (length (proxies h))))"
    using assms by (simp add: own_set_own_same update_conv')
  then show "read t n h' = Return (VProxy (length (proxies h))) h'" by (rule read_own_data)
  show "lookup (proxies h') (length (proxies h)) = Some px"
    using assms by (simp add: proxies_set_own lookup_def)
  show c: "constructed h' = constructed h"
    using assms by (simp add: constructed_set_own)
  assume "\<forall>q \<in> set (constructed h). q < length (proxies h)"
  then have "filter (\<lambda>q. q = length (proxies h)) (constructed h) = []"
    by (auto simp: filter_empty_conv)
  with c show "count h' (length (proxies h)) = 0" by (simp add: count_def)
qed

text \<open>After a successful registration under another name than \<open>__proto__\<close>, reading
  \<open>container.name\<close> returns the handle that the registration created and leaves the heap as
  it is; the handle is uninitialised, the registration has invoked no constructor or
  factory, and the construction count of the handle is 0 (the log of a heap mentions
  existing handles only). Stated for revision 2 and, on a container as they build it, for
  the \<open>get\<close>-only revisions, which refuse \<open>__proto__\<close>.\<close>

lemma handle_is_retrieved:
  "(this < length (containers h) \<longrightarrow> name_of ps \<noteq> ''__proto__'' \<longrightarrow>
      inject_2 this ps h = Return t h' \<longrightarrow>
            read t (name_of ps) h' = Return (VProxy (length (proxies h))) h'
          \<and> lookup (proxies h') (length (proxies h)) = Some (lazy AllTraps this (name_of ps) ps)
          \<and> inst (lazy AllTraps this (name_of ps) ps) = VPrim Undefined
          \<and> constructed h' = constructed h
          \<and> ((\<forall>q \<in> set (constructed h). q < length (proxies h)) \<longrightarrow>
               count h' (length (proxies h)) = 0))
       \<and> (plain h this \<longrightarrow> inject_1 this [d] h = Return t h' \<or> inject_0 this [d] h = Return t h'
            \<or> inject_4 this d h = Return t h' \<longrightarrow>
            read t (getServiceName d) h' = Return (VProxy (length (proxies h))) h'
          \<and> lookup (proxies h') (length (proxies h))
               = Some (lazy GetOnly this (getServiceName d) (Dependency d))
          \<and> inst (lazy GetOnly this (getServiceName d) (Dependency d)) = VPrim Undefined
          \<and> constructed h' = constructed h
          \<and> ((\<forall>q \<in> set (constructed h). q < length (proxies h)) \<longrightarrow>
               count h' (length (proxies h)) = 0))"
proof (intro conjI impI)
  assume len: "this < length (containers h)" and np: "name_of ps \<noteq> ''__proto__''"
    and "inject_2 this ps h = Return t h'"
  note r = inject_2_Return[OF this(3)]
  from r(3) np have h': "h' = set_own this (AList.update (name_of ps)
                      (Data (VProxy (length (proxies h)))) (own h this))
                      (h\<lparr>proxies := proxies h @ [lazy AllTraps this (name_of ps) ps]\<rparr>)"
    by simp
  note f = installed_handle[OF h' len]
  show "read t (name_of ps) h' = Return (VProxy (length (proxies h))) h'" using f(1) r(1) by simp
  show "lookup (proxies h') (length (proxies h)) = Some (lazy AllTraps this (name_of ps) ps)"
    by (rule f(2))
  show "inst (lazy AllTraps this (name_of ps) ps) = VPrim Undefined" by (simp add: lazy_def)
  show "constructed h' = constructed h" by (rule f(3))
  show "count h' (length (proxies h)) = 0" if "\<forall>q \<in> set (constructed h). q < length (proxies h)"
    using f(4)[OF that] .
next
  assume pl: "plain h this"
    and "inject_1 this [d] h = Return t h' \<or> inject_0 this [d] h = Return t h'
            \<or> inject_4 this d h = Return t h'"
  then obtain r where "reducer r this d h = Return t h'"
    by (auto simp: inject_0_def inject_1_def inject_4_def split: outcome.splits)
  note r = reducer_Return(1)[OF pl this]
  from r have t: "t = this" by simp
  from pl have len: "this < length (containers h)" by (simp add: plain_def)
  note f = installed_handle[OF conjunct2[OF r] len]
  show "read t (getServiceName d) h' = Return (VProxy (length (proxies h))) h'" using f(1) t by simp
  show "lookup (proxies h') (length (proxies h))
               = Some (lazy GetOnly this (getServiceName d) (Dependency d))"
    by (rule f(2))
  show "inst (lazy GetOnly this (getServiceName d) (Dependency d)) = VPrim Undefined"
    by (simp add: lazy_def)
  show "constructed h' = constructed h" by (rule f(3))
  show "count h' (length (proxies h)) = 0" if "\<forall>q \<in> set (constructed h). q < length (proxies h)"
    using f(4)[OF that] .
qed

text \<open>The test \<open>const s = container.lazy\<close> after \<open>inject(LazyService)\<close>.\<close>

lemma retrieving_tests:
  "inject_2 container0 (Dependency LazyService) heap0 = Return container0 heapL2
   \<and> inject_1 container0 [LazyService] heap0 = Return container0 heapL1
   \<and> read container0 ''lazy'' heapL2 = Return (VProxy 0) heapL2 \<and> count heapL2 0 = 0
   \<and> read container0 ''lazy'' heapL1 = Return (VProxy 0) heapL1 \<and> count heapL1 0 = 0"
  by (simp add: test_defs heapL2_def heapL1_def LazyService_def)

text \<open>
  C5, at the failing input. In revision 2, after \<open>container.inject("__proto__", () => ({}))\<close>
  the handle is uninitialised and its construction count is 0, but retrieving it by
  reading \<open>container.__proto__\<close> invokes the factory: the container does not own the name,
  its prototype is the handle, and the read goes through the \<open>get\<close> trap. It returns
  \<open>Object.prototype\<close>, the prototype of the constructed instance, and not the handle; the
  construction count is 1 afterwards, with no member of the handle touched by the caller.
\<close>

theorem reading_proto_constructs:
  "call_inject_2 container0 (Named ''__proto__'' (Literal [] [])) heap0
      = Return container0 heapP
   \<and> lookup (proxies heapP) 0
      = Some (lazy AllTraps container0 ''__proto__'' (Named ''__proto__'' (Literal [] [])))
   \<and> state_of heapP 0 = None
   \<and> count heapP 0 = 0
   \<and> read container0 ''__proto__'' heapP
      = Return (VPrototype ObjectPrototype) (heap_after (read container0 ''__proto__'' heapP))
   \<and> count (heap_after (read container0 ''__proto__'' heapP)) 0 = 1
   \<and> state_of (heap_after (read container0 ''__proto__'' heapP)) 0 = Some (VObject 0)"
  by (simp add: test_defs heapP_def call_inject_2_def state_of_def)

subsection \<open>Invariants of method calls\<close>

lemma keeps_simps [simp]:
  "keeps P (Return x h) = P h" "keeps P (Throw e h) = P h" "keeps P Diverge"
  by (simp_all add: keeps_def)

lemma keeps_heap_of: "keeps P r \<Longrightarrow> heap_of r = Some h \<Longrightarrow> P h"
  by (cases r) (simp_all add: heap_of_def)

text \<open>Whatever every property read preserves, every read of a container preserves, and
  every method call.\<close>

lemma cget_keeps:
  assumes step: "\<And>v n h. P h \<Longrightarrow> keeps P (member v n h)"
  shows "P h \<Longrightarrow> keeps P (cget k c n h)"
proof (induction k arbitrary: c n)
  case 0
  show ?case by simp
next
  case (Suc k)
  show ?case
  proof (cases "map_of (own h c) n")
    case None
    show ?thesis
    proof (cases "map_of (prototypes h) c")
      case N: None
      with None Suc.prems show ?thesis by simp
    next
      case (Some pv)
      have "cget (Suc k) c n h = Return (VPrim Undefined) h \<or> cget (Suc k) c n h = member pv n h"
        using None Some by (cases pv) (auto split: prim.splits)
      with Suc.prems step[OF Suc.prems, of pv n] show ?thesis by auto
    qed
  next
    case (Some pr)
    with Suc show ?thesis by (cases pr) simp_all
  qed
qed

lemma read_keeps:
  assumes step: "\<And>v n h. P h \<Longrightarrow> keeps P (member v n h)"
  shows "P h \<Longrightarrow> keeps P (read c n h)"
  unfolding read_def using step by (rule cget_keeps)

lemma eval_invoke_keeps:
  assumes step: "\<And>v n h. P h \<Longrightarrow> keeps P (member v n h)"
  shows "P h \<Longrightarrow> keeps P (eval k this e h)"
    and "P h \<Longrightarrow> keeps P (invoke k v n h)"
proof (induction k this e h and k v n h rule: eval_invoke.induct)
  case (1 k this s h)
  then show ?case by simp
next
  case (2 k this a b h)
  show ?case
  proof (cases "eval k this a h")
    case (Return x h1)
    with 2 have p1: "P h1" by fastforce
    show ?thesis
    proof (cases x)
      case (VPrim pv)
      show ?thesis
      proof (cases pv)
        case (String s)
        from "2.IH"(2)[OF Return VPrim String p1] Return VPrim String
        show ?thesis by (auto split: outcome.splits val.splits prim.splits)
      qed (use Return VPrim p1 in auto)
    qed (use Return p1 in auto)
  next
    case (Throw e h1)
    with 2 show ?thesis by fastforce
  next
    case Diverge
    then show ?thesis by simp
  qed
next
  case (3 k this f h)
  then show ?case by (auto split: sum.splits)
next
  case (4 k this service m h)
  show ?case
  proof (cases this)
    case (VObject r)
    show ?thesis
    proof (cases "lookup (objects h) r")
      case None
      with VObject "4.prems" show ?thesis by simp
    next
      case (Some ob)
      show ?thesis
      proof (cases "read (deps ob) service h")
        case (Return handle h1)
        with read_keeps[of P h "deps ob" service, OF step "4.prems"] have p1: "P h1" by simp
        from "4.IH"[OF VObject Some Return p1] VObject Some Return show ?thesis by simp
      next
        case (Throw e h1)
        with read_keeps[of P h "deps ob" service, OF step "4.prems"] VObject Some
        show ?thesis by simp
      next
        case Diverge
        with VObject Some show ?thesis by simp
      qed
    qed
  qed (use "4.prems" in auto)
next
  case (5 receiver m h)
  then show ?case by simp
next
  case (6 k receiver m h)
  show ?case
  proof (cases "member receiver m h")
    case (Return f h1)
    with step[OF "6.prems", of receiver m] have p1: "P h1" by simp
    show ?thesis
    proof (cases f)
      case (VFunction body bound)
      from "6.IH"[OF Return VFunction p1] Return VFunction show ?thesis by simp
    qed (use Return p1 in auto)
  next
    case (Throw e h1)
    with step[OF "6.prems", of receiver m] show ?thesis by simp
  next
    case Diverge
    then show ?thesis by simp
  qed
qed


subsection \<open>An initialised handle stays as it is\<close>

lemma construct_facts:
  assumes "construct d t q h = (v, h1)"
  shows "proxies h1 = proxies h" and "containers h1 = containers h"
    and "constructed h1 = constructed h @ [q]"
  using assms
  by (auto simp: construct_def Let_def alloc_def split: parameters.splits product.splits)

lemma lookup_set_inst:
  "lookup (proxies (set_inst q v h)) p =
     (if p = q \<and> q < length (proxies h) then Some ((proxies h ! q)\<lparr>inst := v\<rparr>)
      else lookup (proxies h) p)"
  by (auto simp: set_inst_def lookup_def)

lemma set_inst_fields:
  "containers (set_inst q v h) = containers h" "constructed (set_inst q v h) = constructed h"
  "objects (set_inst q v h) = objects h" "length (proxies (set_inst q v h)) = length (proxies h)"
  by (simp_all add: set_inst_def)

lemma state_of_set_inst_other: "q \<noteq> p \<Longrightarrow> state_of (set_inst q v h) p = state_of h p"
  by (simp add: state_of_def lookup_set_inst)

lemma state_of_cong: "proxies h' = proxies h \<Longrightarrow> state_of h' p = state_of h p"
  by (simp add: state_of_def)

lemma assign_facts:
  assumes "heap_of (assign c n v h) = Some h'"
  shows "proxies h' = proxies h" and "constructed h' = constructed h" and "objects h' = objects h"
    and "length (containers h') = length (containers h)"
  using assms
  by (auto simp: assign_def heap_of_def set_own_def
      split: option.splits property.splits if_splits val.splits prim.splits)

lemma assign_not_Diverge: "assign c n v h \<noteq> Diverge"
  by (auto simp: assign_def split: option.splits property.splits val.splits prim.splits)

lemma getInstance_keeps_state:
  assumes "state_of h p = Some i" and "count h p = c"
  shows "keeps (\<lambda>h'. state_of h' p = Some i \<and> count h' p = c) (getInstance q h)"
proof (cases "lookup (proxies h) q")
  case None
  with assms show ?thesis by (simp add: getInstance_def)
next
  case (Some qx)
  show ?thesis
  proof (cases "truthy (inst qx)")
    case True
    with Some assms show ?thesis by (simp add: getInstance_def)
  next
    case False
    with Some assms have ne: "q \<noteq> p" by (auto simp: state_of_def)
    obtain v h1 where c: "construct (descriptor qx) (owner qx) q h = (v, h1)" by force
    note f = construct_facts[OF c]
    from ne assms f have "state_of (set_inst q v h1) p = Some i \<and> count (set_inst q v h1) p = c"
      by (simp add: state_of_set_inst_other state_of_cong[of h1 h] count_def set_inst_fields)
    with Some False c show ?thesis by (simp add: getInstance_def)
  qed
qed

lemma getInstance_4_keeps_state:
  assumes "state_of h p = Some i" and "count h p = c"
  shows "keeps (\<lambda>h'. state_of h' p = Some i \<and> count h' p = c) (getInstance_4 q h)"
proof (cases "lookup (proxies h) q")
  case None
  with assms show ?thesis by (simp add: getInstance_4_def)
next
  case (Some qx)
  show ?thesis
  proof (cases "truthy (inst qx)")
    case True
    with Some assms show ?thesis by (simp add: getInstance_4_def)
  next
    case False
    with Some assms have ne: "q \<noteq> p" by (auto simp: state_of_def)
    obtain v h1 where c: "construct (descriptor qx) (owner qx) q h = (v, h1)" by force
    note f = construct_facts[OF c]
    have base: "state_of h1 p = Some i \<and> count h1 p = c"
      using ne assms f by (simp add: state_of_cong[of h1 h] count_def)
    show ?thesis
    proof (cases "assign (owner qx) (key qx) v h1")
      case (Return u h2)
      then have "heap_of (assign (owner qx) (key qx) v h1) = Some h2" by (simp add: heap_of_def)
      note a = assign_facts[OF this]
      from ne base a have "state_of (set_inst q v h2) p = Some i \<and> count (set_inst q v h2) p = c"
        by (simp add: state_of_set_inst_other state_of_cong[of h2 h1] count_def set_inst_fields)
      with Some False c Return show ?thesis by (simp add: getInstance_4_def)
    next
      case (Throw e h2)
      then have "heap_of (assign (owner qx) (key qx) v h1) = Some h2" by (simp add: heap_of_def)
      note a = assign_facts[OF this]
      from base a have "state_of h2 p = Some i \<and> count h2 p = c"
        by (simp add: state_of_cong[of h2 h1] count_def)
      with Some False c Throw show ?thesis by (simp add: getInstance_4_def)
    next
      case Diverge
      with Some False c show ?thesis by (simp add: getInstance_4_def)
    qed
  qed
qed


lemma traps_keep:
  assumes a: "\<And>q h. P h \<Longrightarrow> handler_of h q = AllTraps \<Longrightarrow> keeps P (getInstance q h)"
    and b: "\<And>q h. P h \<Longrightarrow> handler_of h q = GetOnly \<Longrightarrow> keeps P (getInstance_4 q h)"
    and p: "P h"
  shows "keeps P (get_trap q n h)" and "keeps P (getPrototypeOf_trap q h)"
    and "keeps P (has_trap q n h)" and "keeps P (ownKeys_trap q h)"
    and "keeps P (member v n h)"
proof -
  have g: "keeps P (get_trap q n h)" for q
  proof (cases "handler_of h q")
    case GetOnly
    show ?thesis
    proof (cases "getInstance_4 q h")
      case (Return i h1)
      with b[OF p GetOnly] have "P h1" by simp
      with GetOnly Return show ?thesis by (simp add: get_trap_def split: sum.splits)
    next
      case (Throw e h1)
      with b[OF p GetOnly] GetOnly show ?thesis by (simp add: get_trap_def)
    next
      case Diverge
      with GetOnly show ?thesis by (simp add: get_trap_def)
    qed
  next
    case AllTraps
    show ?thesis
    proof (cases "getInstance q h")
      case (Return i h1)
      with a[OF p AllTraps] have "P h1" by simp
      with AllTraps Return show ?thesis by (simp add: get_trap_def split: sum.splits)
    next
      case (Throw e h1)
      with a[OF p AllTraps] AllTraps show ?thesis by (simp add: get_trap_def)
    next
      case Diverge
      with AllTraps show ?thesis by (simp add: get_trap_def)
    qed
  qed
  then show "keeps P (get_trap q n h)" .
  show "keeps P (getPrototypeOf_trap q h)"
  proof (cases "handler_of h q")
    case GetOnly
    with p show ?thesis by (simp add: getPrototypeOf_trap_def)
  next
    case AllTraps
    show ?thesis
    proof (cases "getInstance q h")
      case (Return i h1)
      with a[OF p AllTraps] have "P h1" by simp
      with AllTraps Return show ?thesis by (simp add: getPrototypeOf_trap_def split: sum.splits)
    next
      case (Throw e h1)
      with a[OF p AllTraps] AllTraps show ?thesis by (simp add: getPrototypeOf_trap_def)
    next
      case Diverge
      with AllTraps show ?thesis by (simp add: getPrototypeOf_trap_def)
    qed
  qed
  show "keeps P (has_trap q n h)"
  proof (cases "handler_of h q")
    case GetOnly
    with p show ?thesis by (simp add: has_trap_def)
  next
    case AllTraps
    show ?thesis
    proof (cases "getInstance q h")
      case (Return i h1)
      with a[OF p AllTraps] have "P h1" by simp
      with AllTraps Return show ?thesis by (simp add: has_trap_def split: sum.splits)
    next
      case (Throw e h1)
      with a[OF p AllTraps] AllTraps show ?thesis by (simp add: has_trap_def)
    next
      case Diverge
      with AllTraps show ?thesis by (simp add: has_trap_def)
    qed
  qed
  show "keeps P (ownKeys_trap q h)"
  proof (cases "handler_of h q")
    case GetOnly
    with p show ?thesis by (simp add: ownKeys_trap_def)
  next
    case AllTraps
    show ?thesis
    proof (cases "getInstance q h")
      case (Return i h1)
      with a[OF p AllTraps] have "P h1" by simp
      with AllTraps Return show ?thesis by (simp add: ownKeys_trap_def split: sum.splits)
    next
      case (Throw e h1)
      with a[OF p AllTraps] AllTraps show ?thesis by (simp add: ownKeys_trap_def)
    next
      case Diverge
      with AllTraps show ?thesis by (simp add: ownKeys_trap_def)
    qed
  qed
  show "keeps P (member v n h)"
    using g p by (cases v) (simp_all add: member_def split: sum.splits)
qed

lemma state_kept:
  assumes "state_of h p = Some i \<and> count h p = c"
  shows "keeps (\<lambda>h'. state_of h' p = Some i \<and> count h' p = c) (get_trap q n h)"
    and "keeps (\<lambda>h'. state_of h' p = Some i \<and> count h' p = c) (getPrototypeOf_trap q h)"
    and "keeps (\<lambda>h'. state_of h' p = Some i \<and> count h' p = c) (has_trap q n h)"
    and "keeps (\<lambda>h'. state_of h' p = Some i \<and> count h' p = c) (ownKeys_trap q h)"
    and "keeps (\<lambda>h'. state_of h' p = Some i \<and> count h' p = c) (member v n h)"
    and "keeps (\<lambda>h'. state_of h' p = Some i \<and> count h' p = c) (eval k this e h)"
    and "keeps (\<lambda>h'. state_of h' p = Some i \<and> count h' p = c) (invoke k v n h)"
proof -
  define P where "P = (\<lambda>h'. state_of h' p = Some i \<and> count h' p = c)"
  have ph: "P h" using assms by (simp add: P_def)
  have a: "keeps P (getInstance q h)" if "P h" and "handler_of h q = AllTraps" for q h
    using that(1) getInstance_keeps_state[of h p i c q] by (simp add: P_def)
  have b: "keeps P (getInstance_4 q h)" if "P h" and "handler_of h q = GetOnly" for q h
    using that(1) getInstance_4_keeps_state[of h p i c q] by (simp add: P_def)
  have m: "keeps P (member v n h)" if "P h" for v n h
    using a b that by (rule traps_keep(5))
  have "keeps P (get_trap q n h)" using a b ph by (rule traps_keep(1))
  then show "keeps (\<lambda>h'. state_of h' p = Some i \<and> count h' p = c) (get_trap q n h)"
    unfolding P_def .
  have "keeps P (getPrototypeOf_trap q h)" using a b ph by (rule traps_keep(2))
  then show "keeps (\<lambda>h'. state_of h' p = Some i \<and> count h' p = c) (getPrototypeOf_trap q h)"
    unfolding P_def .
  have "keeps P (has_trap q n h)" using a b ph by (rule traps_keep(3))
  then show "keeps (\<lambda>h'. state_of h' p = Some i \<and> count h' p = c) (has_trap q n h)"
    unfolding P_def .
  have "keeps P (ownKeys_trap q h)" using a b ph by (rule traps_keep(4))
  then show "keeps (\<lambda>h'. state_of h' p = Some i \<and> count h' p = c) (ownKeys_trap q h)"
    unfolding P_def .
  have "keeps P (member v n h)" using ph by (rule m)
  then show "keeps (\<lambda>h'. state_of h' p = Some i \<and> count h' p = c) (member v n h)"
    unfolding P_def .
  have "keeps P (eval k this e h)" using m ph by (rule eval_invoke_keeps(1))
  then show "keeps (\<lambda>h'. state_of h' p = Some i \<and> count h' p = c) (eval k this e h)"
    unfolding P_def .
  have "keeps P (invoke k v n h)" using m ph by (rule eval_invoke_keeps(2))
  then show "keeps (\<lambda>h'. state_of h' p = Some i \<and> count h' p = c) (invoke k v n h)"
    unfolding P_def .
qed

lemma interact_keeps_state:
  assumes "state_of h p = Some i \<and> count h p = c" and "interact k q x h = Some h'"
  shows "state_of h' p = Some i \<and> count h' p = c"
proof (cases x)
  case (PropertyRead n)
  with assms(2) keeps_heap_of[OF state_kept(1)[OF assms(1), of q n]] show ?thesis by simp
next
  case (MethodCall n)
  with assms(2) keeps_heap_of[OF state_kept(7)[OF assms(1), of k "VProxy q" n]] show ?thesis by simp
next
  case PrototypeQuery
  with assms(2) keeps_heap_of[OF state_kept(2)[OF assms(1), of q]] show ?thesis by simp
next
  case (MembershipTest n)
  with assms(2) keeps_heap_of[OF state_kept(3)[OF assms(1), of q n]] show ?thesis by simp
next
  case KeyEnumeration
  with assms(2) keeps_heap_of[OF state_kept(4)[OF assms(1), of q]] show ?thesis by simp
qed

lemma interactions_keep_state:
  assumes "state_of h p = Some i \<and> count h p = c" and "interactions k q xs h = Some h'"
  shows "state_of h' p = Some i \<and> count h' p = c"
  using assms
proof (induction xs arbitrary: h)
  case Nil
  then show ?case by simp
next
  case (Cons x xs)
  from Cons.prems(2) obtain h1 where 1: "interact k q x h = Some h1"
    and 2: "interactions k q xs h1 = Some h'"
    by (auto split: option.splits)
  from Cons.IH[OF interact_keeps_state[OF Cons.prems(1) 1] 2] show ?case .
qed


subsection \<open>The first interaction constructs\<close>

lemma construct_truthy:
  assumes "construct d t q h = (v, h1)" and "constructs_truthy d"
  shows "truthy v"
  using assms
  by (auto simp: construct_def Let_def alloc_def constructs_truthy_def truthy_def
      split: parameters.splits product.splits)

lemma state_of_set_inst_same:
  "p < length (proxies h) \<Longrightarrow> state_of (set_inst p v h) p = (if truthy v then Some v else None)"
  by (simp add: state_of_def lookup_set_inst)

lemma lookup_Some_less: "lookup xs i = Some x \<Longrightarrow> i < length xs"
  by (simp add: lookup_def split: if_splits)

lemma getInstance_first:
  assumes "lookup (proxies h) p = Some px" and "\<not> truthy (inst px)"
  shows "\<exists>v h'. getInstance p h = Return v h' \<and> count h' p = Suc (count h p)
           \<and> containers h' = containers h
           \<and> (constructs_truthy (descriptor px) \<longrightarrow> state_of h' p = Some v)"
proof -
  obtain v h1 where c: "construct (descriptor px) (owner px) p h = (v, h1)" by force
  note f = construct_facts[OF c]
  have g: "getInstance p h = Return v (set_inst p v h1)"
    using assms c by (simp add: getInstance_def)
  have len: "p < length (proxies h1)" using lookup_Some_less[OF assms(1)] f(1) by simp
  have "count (set_inst p v h1) p = Suc (count h p)"
    using f(3) by (simp add: count_def set_inst_fields)
  moreover have "containers (set_inst p v h1) = containers h"
    using f(2) by (simp add: set_inst_fields)
  moreover have "constructs_truthy (descriptor px) \<longrightarrow> state_of (set_inst p v h1) p = Some v"
    using construct_truthy[OF c] len by (simp add: state_of_set_inst_same)
  ultimately show ?thesis using g by blast
qed

lemma assign_storable:
  assumes "storable h c n"
  shows "assign c n v h = Return () (set_own c (AList.update n (Data v) (own h c)) h)"
proof (cases "map_of (own h c) n")
  case None
  then have "n \<notin> set (own_keys h c)" by (simp add: own_keys_def map_of_eq_None_iff)
  with assms None show ?thesis by (auto simp: storable_def assign_def)
next
  case (Some pr)
  with assms show ?thesis by (cases pr) (simp_all add: storable_def assignable_def assign_def)
qed

lemma assign_returns:
  assumes "assignable h c n"
  shows "\<exists>h'. assign c n v h = Return () h'"
  using assms
  by (auto simp: assignable_def assign_def
      split: option.splits property.splits val.splits prim.splits)

lemma assignable_cong: "containers h' = containers h \<Longrightarrow> assignable h' c n = assignable h c n"
  by (simp add: assignable_def own_def)

lemma getInstance_4_first:
  assumes "lookup (proxies h) p = Some px" and "\<not> truthy (inst px)"
    and "assignable h (owner px) (key px)" and "constructs_truthy (descriptor px)"
  shows "\<exists>v h'. getInstance_4 p h = Return v h' \<and> count h' p = Suc (count h p)
           \<and> state_of h' p = Some v"
proof -
  obtain v h1 where c: "construct (descriptor px) (owner px) p h = (v, h1)" by force
  note f = construct_facts[OF c]
  from assms(3) assignable_cong[OF f(2)] have "assignable h1 (owner px) (key px)" by simp
  from assign_returns[OF this] obtain h2 where
    a: "assign (owner px) (key px) v h1 = Return () h2" by blast
  then have "heap_of (assign (owner px) (key px) v h1) = Some h2" by (simp add: heap_of_def)
  note af = assign_facts[OF this]
  have g: "getInstance_4 p h = Return v (set_inst p v h2)"
    using assms c a by (simp add: getInstance_4_def)
  have len: "p < length (proxies h2)"
    using lookup_Some_less[OF assms(1)] f(1) af(1) by simp
  have tr: "truthy v" using c assms(4) by (rule construct_truthy)
  have "count (set_inst p v h2) p = Suc (count h p)"
    using f(3) af(2) by (simp add: count_def set_inst_fields)
  moreover have "state_of (set_inst p v h2) p = Some v"
    using tr len by (simp add: state_of_set_inst_same)
  ultimately show ?thesis using g by blast
qed

lemma first_traps:
  assumes "lookup (proxies h) p = Some px" and "\<not> truthy (inst px)"
    and "traps px = GetOnly \<longrightarrow> assignable h (owner px) (key px)"
    and "constructs_truthy (descriptor px)"
  shows "get_trap p n h \<noteq> Diverge \<and> keeps (constructed_now h p) (get_trap p n h)"
    and "traps px = AllTraps \<Longrightarrow>
          getPrototypeOf_trap p h \<noteq> Diverge \<and> keeps (constructed_now h p) (getPrototypeOf_trap p h)"
    and "traps px = AllTraps \<Longrightarrow>
          has_trap p n h \<noteq> Diverge \<and> keeps (constructed_now h p) (has_trap p n h)"
    and "traps px = AllTraps \<Longrightarrow>
          ownKeys_trap p h \<noteq> Diverge \<and> keeps (constructed_now h p) (ownKeys_trap p h)"
proof -
  have hd: "handler_of h p = traps px" using assms(1) by (simp add: handler_of_def)
  have all: "\<exists>v h'. getInstance p h = Return v h' \<and> constructed_now h p h'"
    using getInstance_first[OF assms(1,2)] assms(4) by (auto simp: constructed_now_def)
  show "get_trap p n h \<noteq> Diverge \<and> keeps (constructed_now h p) (get_trap p n h)"
  proof (cases "traps px")
    case GetOnly
    with getInstance_4_first[OF assms(1,2) _ assms(4)] assms(3)
    obtain v h' where "getInstance_4 p h = Return v h'" "constructed_now h p h'"
      by (auto simp: constructed_now_def)
    with GetOnly hd show ?thesis by (simp add: get_trap_def split: sum.splits)
  next
    case AllTraps
    with all hd show ?thesis by (auto simp: get_trap_def split: sum.splits)
  qed
  assume "traps px = AllTraps"
  with all hd show
    "getPrototypeOf_trap p h \<noteq> Diverge \<and> keeps (constructed_now h p) (getPrototypeOf_trap p h)"
    "has_trap p n h \<noteq> Diverge \<and> keeps (constructed_now h p) (has_trap p n h)"
    "ownKeys_trap p h \<noteq> Diverge \<and> keeps (constructed_now h p) (ownKeys_trap p h)"
    by (auto simp: getPrototypeOf_trap_def has_trap_def ownKeys_trap_def split: sum.splits)
qed


lemma first_invoke:
  assumes "lookup (proxies h) p = Some px" and "\<not> truthy (inst px)"
    and "traps px = GetOnly \<longrightarrow> assignable h (owner px) (key px)"
    and "constructs_truthy (descriptor px)"
  shows "keeps (constructed_now h p) (invoke k (VProxy p) n h)"
proof (cases k)
  case 0
  then show ?thesis by simp
next
  case (Suc j)
  note f = first_traps(1)[OF assms, of n]
  show ?thesis
  proof (cases "get_trap p n h")
    case (Return fn h1)
    with f have c: "constructed_now h p h1" by simp
    then obtain i where st: "state_of h1 p = Some i \<and> count h1 p = Suc (count h p)"
      by (auto simp: constructed_now_def)
    have k: "keeps (constructed_now h p) (eval j this body h1)" for this body
    proof (cases "eval j this body h1")
      case (Return y h2)
      with state_kept(6)[OF st, of j this body] show ?thesis by (simp add: constructed_now_def)
    next
      case (Throw e h2)
      with state_kept(6)[OF st, of j this body] show ?thesis by (simp add: constructed_now_def)
    next
      case Diverge
      then show ?thesis by simp
    qed
    from Return Suc c k show ?thesis by (cases fn) (simp_all add: member_def)
  next
    case (Throw e h1)
    with f Suc show ?thesis by (simp add: member_def)
  next
    case Diverge
    with f show ?thesis by simp
  qed
qed

lemma first_interaction:
  assumes "lookup (proxies h) p = Some px" and "\<not> truthy (inst px)"
    and "constructs_truthy (descriptor px)"
    and "traps px = GetOnly \<longrightarrow> assignable h (owner px) (key px)"
    and "interact k p x h = Some h1"
  shows "traps px = AllTraps \<or> reads x \<Longrightarrow> constructed_now h p h1"
    and "traps px = GetOnly \<and> \<not> reads x \<Longrightarrow> h1 = h"
proof -
  assume c: "traps px = AllTraps \<or> reads x"
  show "constructed_now h p h1"
  proof (cases x)
    case (PropertyRead n)
    with assms(5) first_traps(1)[OF assms(1,2,4,3), of n] show ?thesis
      by (auto dest: keeps_heap_of)
  next
    case (MethodCall n)
    with assms(5) first_invoke[OF assms(1,2,4,3), of k n] show ?thesis
      by (auto dest: keeps_heap_of)
  next
    case PrototypeQuery
    with c have "traps px = AllTraps" by (simp add: reads_def)
    with PrototypeQuery assms(5) first_traps(2)[OF assms(1,2,4,3)] show ?thesis
      by (auto dest: keeps_heap_of)
  next
    case (MembershipTest n)
    with c have "traps px = AllTraps" by (simp add: reads_def)
    with MembershipTest assms(5) first_traps(3)[OF assms(1,2,4,3), of n] show ?thesis
      by (auto dest: keeps_heap_of)
  next
    case KeyEnumeration
    with c have "traps px = AllTraps" by (simp add: reads_def)
    with KeyEnumeration assms(5) first_traps(4)[OF assms(1,2,4,3)] show ?thesis
      by (auto dest: keeps_heap_of)
  qed
next
  assume g: "traps px = GetOnly \<and> \<not> reads x"
  then have hd: "handler_of h p = GetOnly" using assms(1) by (simp add: handler_of_def)
  from g hd assms(5) show "h1 = h"
    by (cases x) (simp_all add: reads_def getPrototypeOf_trap_def has_trap_def ownKeys_trap_def
        heap_of_def)
qed

subsection \<open>Construction happens once\<close>

text \<open>
  C1, as amended. Take an uninitialised handle whose constructor or factory yields a truthy
  value (every class does) and, in the \<open>get\<close>-only revisions, whose container property can
  be assigned. After any sequence \<open>xs\<close> of interactions (property read, method call,
  prototype query, membership test, key enumeration) that ends, the constructor or
  factory has been invoked exactly once and the handle is initialised, provided that
  \<open>xs\<close> is not empty (revisions 2 and 3, which trap all of them) or contains a property
  read or a method call (revisions 0, 1 and 4, which trap \<open>get\<close> only). Whatever
  interactions \<open>ys\<close> follow, the count and the cached instance stay the same: the
  transition is one-way. In the \<open>get\<close>-only revisions prototype queries, membership tests
  and key enumerations alone leave the heap as it is.
\<close>

theorem handle_constructs_once:
  assumes "lookup (proxies h) p = Some px" and "\<not> truthy (inst px)"
    and "constructs_truthy (descriptor px)"
    and "traps px = GetOnly \<longrightarrow> assignable h (owner px) (key px)"
    and "interactions k p xs h = Some h1"
    and "interactions k p ys h1 = Some h2"
  shows "((traps px = AllTraps \<and> xs \<noteq> []) \<or> (\<exists>x \<in> set xs. reads x) \<longrightarrow>
            count h1 p = Suc (count h p) \<and> state_of h1 p \<noteq> None
          \<and> count h2 p = count h1 p \<and> state_of h2 p = state_of h1 p)
       \<and> (traps px = GetOnly \<and> (\<forall>x \<in> set xs. \<not> reads x) \<longrightarrow> h1 = h)"
proof -
  have seq: "((traps px = AllTraps \<and> xs \<noteq> []) \<or> (\<exists>x \<in> set xs. reads x) \<longrightarrow>
               constructed_now h p h1)
           \<and> (traps px = GetOnly \<and> (\<forall>x \<in> set xs. \<not> reads x) \<longrightarrow> h1 = h)"
    using assms(5)
  proof (induction xs)
    case Nil
    then show ?case by simp
  next
    case (Cons x xs)
    from Cons.prems obtain h0 where 1: "interact k p x h = Some h0"
      and 2: "interactions k p xs h0 = Some h1"
      by (auto split: option.splits)
    note f = first_interaction[OF assms(1-4) 1]
    show ?case
    proof (cases "traps px = AllTraps \<or> reads x")
      case True
      from f(1)[OF True] obtain i where
        st: "state_of h0 p = Some i \<and> count h0 p = Suc (count h p)"
        by (auto simp: constructed_now_def)
      from interactions_keep_state[OF st 2] have "constructed_now h p h1"
        by (simp add: constructed_now_def)
      with True show ?thesis by (cases "traps px") auto
    next
      case False
      then have g: "traps px = GetOnly \<and> \<not> reads x" by (cases "traps px") auto
      from f(2)[OF g] 2 have "interactions k p xs h = Some h1" by simp
      from Cons.IH[OF this] g show ?thesis by auto
    qed
  qed
  show ?thesis
  proof (intro conjI impI)
    assume "(traps px = AllTraps \<and> xs \<noteq> []) \<or> (\<exists>x \<in> set xs. reads x)"
    with seq have now: "constructed_now h p h1" by blast
    then show "count h1 p = Suc (count h p)" and ne: "state_of h1 p \<noteq> None"
      by (simp_all add: constructed_now_def)
    from ne obtain i where st: "state_of h1 p = Some i \<and> count h1 p = count h1 p" by auto
    from interactions_keep_state[OF st assms(6)] st
    show "count h2 p = count h1 p" and "state_of h2 p = state_of h1 p" by simp_all
  next
    assume "traps px = GetOnly \<and> (\<forall>x \<in> set xs. \<not> reads x)"
    with seq show "h1 = h" by blast
  qed
qed







lemmas lazy_defs = test_defs LazyService_def heapL1_def heapL2_def heapL2'_def heapL1'_def
  heapL4_def state_of_def constructs_truthy_def assignable_def storable_def reads_def
  getPrototypeOf_trap_def has_trap_def ownKeys_trap_def target_prototype_def
  prototype_of_def own_names_def count_after_def

text \<open>Revision 1: a prototype query is answered by the target of the proxy; the
  constructor has not been invoked after this first interaction.\<close>

theorem handle_constructs_once_counterexample:
  "interactions 1 0 [PrototypeQuery] heapL1 = Some heapL1
   \<and> lookup (proxies heapL1) 0 = Some (lazy GetOnly container0 ''lazy'' (Dependency LazyService))
   \<and> count heapL1 0 = 0 \<and> state_of heapL1 0 = None"
  by (simp add: lazy_defs)

text \<open>\<open>LazyService\<close> in revision 2 (first a method call, then three more interactions) and
  in revision 1 (a prototype query, then a property read; or no read at all).\<close>

theorem handle_constructs_once_witness:
  "lookup (proxies heapL2) 0 = Some (lazy AllTraps container0 ''lazy'' (Dependency LazyService))
   \<and> \<not> truthy (inst (lazy AllTraps container0 ''lazy'' (Dependency LazyService)))
   \<and> constructs_truthy (Dependency LazyService)
   \<and> interactions 1 0 [MethodCall ''foo''] heapL2 = Some heapL2'
   \<and> interactions 1 0 [MethodCall ''foo'', PrototypeQuery, MembershipTest ''foo''] heapL2'
        = Some heapL2'
   \<and> count heapL2 0 = 0 \<and> count heapL2' 0 = 1 \<and> state_of heapL2' 0 = Some (VObject 0)
   \<and> lookup (proxies heapL1) 0 = Some (lazy GetOnly container0 ''lazy'' (Dependency LazyService))
   \<and> assignable heapL1 container0 ''lazy''
   \<and> interactions 1 0 [PrototypeQuery, MembershipTest ''foo''] heapL1 = Some heapL1
   \<and> interactions 1 0 [PrototypeQuery, PropertyRead ''foo''] heapL1 = Some heapL1'
   \<and> interactions 1 0 [MethodCall ''foo''] heapL1' = Some heapL1'
   \<and> count heapL1 0 = 0 \<and> count heapL1' 0 = 1 \<and> state_of heapL1' 0 = Some (VObject 0)"
proof -
  have a: "lookup (proxies heapL2) 0 = Some (lazy AllTraps container0 ''lazy'' (Dependency LazyService))"
    "\<not> truthy (inst (lazy AllTraps container0 ''lazy'' (Dependency LazyService)))"
    "constructs_truthy (descriptor (lazy AllTraps container0 ''lazy'' (Dependency LazyService)))"
    "traps (lazy AllTraps container0 ''lazy'' (Dependency LazyService)) = GetOnly \<longrightarrow>
       assignable heapL2 (owner (lazy AllTraps container0 ''lazy'' (Dependency LazyService)))
         (key (lazy AllTraps container0 ''lazy'' (Dependency LazyService)))"
    by (simp_all add: lazy_defs)
  have b: "interactions 1 0 [MethodCall ''foo''] heapL2 = Some heapL2'"
    "interactions 1 0 [MethodCall ''foo'', PrototypeQuery, MembershipTest ''foo''] heapL2'
        = Some heapL2'"
    by (simp_all add: lazy_defs)
  have c: "lookup (proxies heapL1) 0 = Some (lazy GetOnly container0 ''lazy'' (Dependency LazyService))"
    "\<not> truthy (inst (lazy GetOnly container0 ''lazy'' (Dependency LazyService)))"
    "constructs_truthy (descriptor (lazy GetOnly container0 ''lazy'' (Dependency LazyService)))"
    "traps (lazy GetOnly container0 ''lazy'' (Dependency LazyService)) = GetOnly \<longrightarrow>
       assignable heapL1 (owner (lazy GetOnly container0 ''lazy'' (Dependency LazyService)))
         (key (lazy GetOnly container0 ''lazy'' (Dependency LazyService)))"
    by (simp_all add: lazy_defs)
  have d: "interactions 1 0 [PrototypeQuery, MembershipTest ''foo''] heapL1 = Some heapL1"
    "interactions 1 0 [PrototypeQuery, PropertyRead ''foo''] heapL1 = Some heapL1'"
    "interactions 1 0 [MethodCall ''foo''] heapL1' = Some heapL1'"
    "interactions 1 0 [] heapL1 = Some heapL1"
    by (simp_all add: lazy_defs)
  have e: "count heapL2 0 = 0" "count heapL1 0 = 0" "state_of heapL2' 0 = Some (VObject 0)"
    "state_of heapL1' 0 = Some (VObject 0)" "assignable heapL1 container0 ''lazy''"
    "constructs_truthy (Dependency LazyService)"
    by (simp_all add: lazy_defs)
  note w1 = handle_constructs_once[OF a b]
  note w2 = handle_constructs_once[OF c d(2) d(3)]
  note w3 = handle_constructs_once[OF c d(1) d(4)]
  from w1 w2 w3 a b c d e show ?thesis by (simp add: reads_def lazy_def)
qed


text \<open>A factory that returns a falsy value is left out above: \<open>if (!instance)\<close> takes its
  handle for uninitialised and calls the factory at every interaction.\<close>

lemma falsy_factory_is_called_again:
  "\<not> constructs_truthy (Named ''zero'' (Plain (Number 0)))
   \<and> read container0 ''zero'' heapZ = Return (VProxy 0) heapZ
   \<and> count_after (get_trap 0 ''x'' heapZ) 0 = Some 1
   \<and> count_after (get_trap 0 ''x'' (heap_after (get_trap 0 ''x'' heapZ))) 0 = Some 2"
  by (simp add: lazy_defs heapZ_def)

subsection \<open>What triggers construction\<close>

lemma getInstance_4_count:
  assumes "lookup (proxies h) p = Some px" and "\<not> truthy (inst px)"
  shows "count_after (getInstance_4 p h) p = Some (Suc (count h p))"
proof -
  obtain v h1 where c: "construct (descriptor px) (owner px) p h = (v, h1)" by force
  note f = construct_facts[OF c]
  have c1: "count h1 p = Suc (count h p)" using f(3) by (simp add: count_def)
  show ?thesis
  proof (cases "assign (owner px) (key px) v h1")
    case (Return u h2)
    then have "heap_of (assign (owner px) (key px) v h1) = Some h2" by (simp add: heap_of_def)
    from assign_facts(2)[OF this] c1 have "count (set_inst p v h2) p = Suc (count h p)"
      by (simp add: count_def set_inst_fields)
    with assms c Return show ?thesis
      by (simp add: getInstance_4_def count_after_def heap_of_def)
  next
    case (Throw e h2)
    then have "heap_of (assign (owner px) (key px) v h1) = Some h2" by (simp add: heap_of_def)
    from assign_facts(2)[OF this] c1 have "count h2 p = Suc (count h p)"
      by (simp add: count_def)
    with assms c Throw show ?thesis
      by (simp add: getInstance_4_def count_after_def heap_of_def)
  next
    case Diverge
    with assign_not_Diverge show ?thesis by blast
  qed
qed

lemma getInstance_count:
  assumes "lookup (proxies h) p = Some px" and "\<not> truthy (inst px)"
  shows "\<exists>v h'. getInstance p h = Return v h' \<and> count h' p = Suc (count h p)"
  using getInstance_first[OF assms] by blast

text \<open>Testing whether a container has a name that it owns, and reading the value of an own
  data property, leave the heap as it is.\<close>

lemma container_observations:
  "(n \<in> set (own_keys h c) \<longrightarrow> key_in c n h = Return True h)
   \<and> (map_of (own h c) n = Some (Data v) \<longrightarrow> read c n h = Return v h)"
  by (simp add: key_in_def own_keys_def read_def)

text \<open>
  C2, as amended. On an uninitialised handle a property read invokes the constructor or
  factory in every revision (and so does a method call, which starts with the read of
  the method). In revisions 2 and 3 a prototype query, a membership test and a key
  enumeration invoke it as well. In revisions 0, 1 and 4 these three are answered by the
  target \<open>Object.create(prototype)\<close> of the proxy and leave the heap as it is. The keys of a
  container are read off the heap (\<open>own_keys\<close>); testing whether the container has a name
  that it owns, and reading the value of an own data property, return without a change of
  the heap (last two conjuncts): no trap runs in them.
\<close>

theorem construction_triggers:
  assumes "lookup (proxies h) p = Some px" and "\<not> truthy (inst px)"
  shows "count_after (get_trap p n h) p = Some (Suc (count h p))
       \<and> (traps px = AllTraps \<longrightarrow>
            count_after (getPrototypeOf_trap p h) p = Some (Suc (count h p))
          \<and> count_after (has_trap p n h) p = Some (Suc (count h p))
          \<and> count_after (ownKeys_trap p h) p = Some (Suc (count h p)))
       \<and> (traps px = GetOnly \<longrightarrow>
            getPrototypeOf_trap p h = Return (target_prototype h p) h
          \<and> has_trap p n h = Return (inherited (target_prototype h p) n \<noteq> VPrim Undefined) h
          \<and> ownKeys_trap p h = Return [] h)
       \<and> (m \<in> set (own_keys h c) \<longrightarrow> key_in c m h = Return True h)
       \<and> (map_of (own h c) m = Some (Data w) \<longrightarrow> read c m h = Return w h)"
proof (intro conjI impI)
  show "key_in c m h = Return True h" if "m \<in> set (own_keys h c)"
    using that container_observations[of m h c] by simp
  show "read c m h = Return w h" if "map_of (own h c) m = Some (Data w)"
    using that container_observations[of m h c w] by simp
  have hd: "handler_of h p = traps px" using assms(1) by (simp add: handler_of_def)
  show "count_after (get_trap p n h) p = Some (Suc (count h p))"
  proof (cases "traps px")
    case GetOnly
    from getInstance_4_count[OF assms] GetOnly hd show ?thesis
      by (cases "getInstance_4 p h")
        (simp_all add: get_trap_def count_after_def heap_of_def split: sum.splits)
  next
    case AllTraps
    from getInstance_count[OF assms] AllTraps hd show ?thesis
      by (auto simp: get_trap_def count_after_def heap_of_def split: sum.splits)
  qed
  {
    assume "traps px = AllTraps"
    with getInstance_count[OF assms] hd show
      "count_after (getPrototypeOf_trap p h) p = Some (Suc (count h p))"
      "count_after (has_trap p n h) p = Some (Suc (count h p))"
      "count_after (ownKeys_trap p h) p = Some (Suc (count h p))"
      by (auto simp: getPrototypeOf_trap_def has_trap_def ownKeys_trap_def count_after_def
          heap_of_def split: sum.splits)
  }
  {
    assume "traps px = GetOnly"
    with hd show "getPrototypeOf_trap p h = Return (target_prototype h p) h"
      "has_trap p n h = Return (inherited (target_prototype h p) n \<noteq> VPrim Undefined) h"
      "ownKeys_trap p h = Return [] h"
      by (simp_all add: getPrototypeOf_trap_def has_trap_def ownKeys_trap_def)
  }
qed

text \<open>Revision 4: the first membership test \<open>"foo" in container.lazy\<close> returns true and
  does not invoke the constructor.\<close>

theorem construction_triggers_counterexample:
  "inject_4 container0 LazyService heap0 = Return container0 heapL4
   \<and> read container0 ''lazy'' heapL4 = Return (VProxy 0) heapL4
   \<and> has_trap 0 ''foo'' heapL4 = Return True heapL4
   \<and> count_after (has_trap 0 ''foo'' heapL4) 0 = Some 0"
  by (simp add: lazy_defs)

text \<open>\<open>LazyService\<close> in revisions 2 and 4, and the container-level observations of the test
  suite with the count at 0.\<close>

theorem construction_triggers_witness:
  "lookup (proxies heapL2) 0 = Some (lazy AllTraps container0 ''lazy'' (Dependency LazyService))
   \<and> \<not> truthy (inst (lazy AllTraps container0 ''lazy'' (Dependency LazyService)))
   \<and> count_after (get_trap 0 ''foo'' heapL2) 0 = Some 1
   \<and> count_after (getPrototypeOf_trap 0 heapL2) 0 = Some 1
   \<and> count_after (has_trap 0 ''foo'' heapL2) 0 = Some 1
   \<and> count_after (ownKeys_trap 0 heapL2) 0 = Some 1
   \<and> lookup (proxies heapL4) 0 = Some (lazy GetOnly container0 ''lazy'' (Dependency LazyService))
   \<and> count_after (get_trap 0 ''foo'' heapL4) 0 = Some 1
   \<and> getPrototypeOf_trap 0 heapL4 = Return (ClassPrototype LazyService) heapL4
   \<and> ''lazy'' \<in> set (own_keys heapL2 container0)
   \<and> key_in container0 ''lazy'' heapL2 = Return True heapL2
   \<and> map_of (own heapL2 container0) ''lazy'' = Some (Data (VProxy 0))
   \<and> read container0 ''lazy'' heapL2 = Return (VProxy 0) heapL2 \<and> count heapL2 0 = 0"
proof -
  have a: "lookup (proxies heapL2) 0 = Some (lazy AllTraps container0 ''lazy'' (Dependency LazyService))"
    "\<not> truthy (inst (lazy AllTraps container0 ''lazy'' (Dependency LazyService)))"
    by (simp_all add: lazy_defs)
  have c: "lookup (proxies heapL4) 0 = Some (lazy GetOnly container0 ''lazy'' (Dependency LazyService))"
    "\<not> truthy (inst (lazy GetOnly container0 ''lazy'' (Dependency LazyService)))"
    by (simp_all add: lazy_defs)
  have e: "count heapL2 0 = 0" "count heapL4 0 = 0"
    "target_prototype heapL4 0 = ClassPrototype LazyService"
    "''lazy'' \<in> set (own_keys heapL2 container0)" "key_in container0 ''lazy'' heapL2 = Return True heapL2"
    "read container0 ''lazy'' heapL2 = Return (VProxy 0) heapL2"
    by (simp_all add: lazy_defs key_in_def)
  have f: "map_of (own heapL2 container0) ''lazy'' = Some (Data (VProxy 0))"
    by (simp add: lazy_defs)
  from construction_triggers[OF a, where n="''foo''" and m="''lazy''" and c=container0
      and w="VProxy 0"]
    construction_triggers[OF c, where n="''foo''" and m="''lazy''" and c=container0
      and w="VProxy 0"] a c e f
  show ?thesis by (simp add: lazy_def)
qed

subsection \<open>Methods read through a handle are bound\<close>

lemma instance_of_set_inst:
  "p < length (proxies h) \<Longrightarrow> instance_of (set_inst p v h) p = v"
  by (simp add: instance_of_def lookup_set_inst)





subsection \<open>The container entry after the first read\<close>

lemma own_update:
  "map_of (own (set_own c (AList.update k v (own h c)) h) c') m =
     (if c' = c \<and> m = k \<and> c < length (containers h) then Some v else map_of (own h c') m)"
proof (cases "c < length (containers h)")
  case True
  then show ?thesis
    by (cases "c' = c") (simp_all add: own_set_own_same own_set_own_other update_conv')
next
  case False
  then have "own (set_own c (AList.update k v (own h c)) h) c' = own h c'"
    by (simp add: set_own_def own_def list_update_beyond)
  with False show ?thesis by simp
qed

lemma own_cong: "containers h' = containers h \<Longrightarrow> own h' c = own h c"
  by (simp add: own_def)

lemma getInstance_4_publishes:
  assumes "lookup (proxies h) p = Some px" and "\<not> truthy (inst px)"
    and "storable h (owner px) (key px)" and "owner px < length (containers h)"
    and "descriptor px = Dependency cls"
  shows "\<exists>h1. getInstance_4 p h = Return (VObject (length (objects h))) h1
           \<and> instance_of h1 p = VObject (length (objects h))
           \<and> read (owner px) (key px) h1 = Return (VObject (length (objects h))) h1
           \<and> lookup (objects h1) (length (objects h))
                = Some \<lparr>deps = owner px, data = class_fields cls, closures = [],
                        prototype = ClassPrototype cls\<rparr>"
proof -
  let ?v = "VObject (length (objects h))"
  let ?ob = "\<lparr>deps = owner px, data = class_fields cls, closures = [],
                        prototype = ClassPrototype cls\<rparr>"
  let ?h0 = "h\<lparr>constructed := constructed h @ [p], objects := objects h @ [?ob]\<rparr>"
  have c: "construct (descriptor px) (owner px) p h = (?v, ?h0)"
    using assms(5) by (simp add: construct_def alloc_def)
  let ?h2 = "set_own (owner px) (AList.update (key px) (Data ?v) (own ?h0 (owner px))) ?h0"
  have "storable ?h0 (owner px) (key px)"
    using assms(3) by (simp add: storable_def assignable_def own_keys_def own_def)
  then have a: "assign (owner px) (key px) ?v ?h0 = Return () ?h2"
    by (rule assign_storable)
  have g: "getInstance_4 p h = Return ?v (set_inst p ?v ?h2)"
    using assms(1,2) c a by (simp add: getInstance_4_def)
  have len: "p < length (proxies ?h2)"
    using lookup_Some_less[OF assms(1)] by (simp add: proxies_set_own)
  have i: "instance_of (set_inst p ?v ?h2) p = ?v"
    using len by (rule instance_of_set_inst)
  have "map_of (own ?h2 (owner px)) (key px) = Some (Data ?v)"
    using assms(4) by (simp add: own_update)
  moreover have "own (set_inst p ?v ?h2) (owner px) = own ?h2 (owner px)"
    by (rule own_cong) (simp add: set_inst_fields)
  ultimately have "map_of (own (set_inst p ?v ?h2) (owner px)) (key px) = Some (Data ?v)"
    by simp
  then have r: "read (owner px) (key px) (set_inst p ?v ?h2) = Return ?v (set_inst p ?v ?h2)"
    by (rule read_own_data)
  have o: "lookup (objects (set_inst p ?v ?h2)) (length (objects h)) = Some ?ob"
    by (simp add: set_inst_fields objects_set_own lookup_def)
  from g i r o show ?thesis by blast
qed

lemma all_traps_set_inst: "all_traps h \<Longrightarrow> all_traps (set_inst q v h)"
proof -
  assume a: "all_traps h"
  show ?thesis
  proof (cases "q < length (proxies h)")
    case True
    have "set ((proxies h)[q := (proxies h ! q)\<lparr>inst := v\<rparr>])
            \<subseteq> insert ((proxies h ! q)\<lparr>inst := v\<rparr>) (set (proxies h))"
      by (rule set_update_subset_insert)
    moreover have "traps ((proxies h ! q)\<lparr>inst := v\<rparr>) = AllTraps"
      using a True by (simp add: all_traps_def list_all_iff)
    ultimately show ?thesis using a
      by (auto simp: all_traps_def list_all_iff set_inst_def)
  next
    case False
    then show ?thesis using a by (simp add: all_traps_def set_inst_def list_update_beyond)
  qed
qed

lemma all_traps_handler: "all_traps h \<Longrightarrow> handler_of h q = AllTraps"
  by (auto simp: all_traps_def list_all_iff handler_of_def lookup_def split: option.splits)

lemma getInstance_keeps_containers:
  assumes "containers h = cs \<and> all_traps h"
  shows "keeps (\<lambda>h'. containers h' = cs \<and> all_traps h') (getInstance q h)"
proof (cases "lookup (proxies h) q")
  case None
  with assms show ?thesis by (simp add: getInstance_def)
next
  case (Some qx)
  show ?thesis
  proof (cases "truthy (inst qx)")
    case True
    with Some assms show ?thesis by (simp add: getInstance_def)
  next
    case False
    obtain v h1 where c: "construct (descriptor qx) (owner qx) q h = (v, h1)" by force
    note f = construct_facts[OF c]
    from f(1) assms have "all_traps h1" by (simp add: all_traps_def)
    from all_traps_set_inst[OF this] f(2) assms
    have "containers (set_inst q v h1) = cs \<and> all_traps (set_inst q v h1)"
      by (simp add: set_inst_fields)
    with Some False c show ?thesis by (simp add: getInstance_def)
  qed
qed

lemma interactions_keep_containers:
  assumes "all_traps h" and "interactions k q xs h = Some h'"
  shows "containers h' = containers h \<and> all_traps h'"
proof -
  define P where "P = (\<lambda>h'. containers h' = containers h \<and> all_traps h')"
  have ph: "P h" using assms(1) by (simp add: P_def)
  have a: "keeps P (getInstance q h)" if "P h" and "handler_of h q = AllTraps" for q h
    using that(1) getInstance_keeps_containers[of h _ q] by (simp add: P_def)
  have b: "keeps P (getInstance_4 q h)" if "P h" and "handler_of h q = GetOnly" for q h
    using that all_traps_handler[of h q] by (simp add: P_def)
  have m: "keeps P (member v n h)" if "P h" for v n h
    using a b that by (rule traps_keep(5))
  have one: "P h1" if "P h0" and "interact k q x h0 = Some h1" for h0 h1 x
  proof (cases x)
    case (PropertyRead n)
    have "keeps P (get_trap q n h0)" using a b that(1) by (rule traps_keep(1))
    with that(2) PropertyRead show ?thesis by (auto dest: keeps_heap_of)
  next
    case (MethodCall n)
    have "keeps P (invoke k (VProxy q) n h0)" using m that(1) by (rule eval_invoke_keeps(2))
    with that(2) MethodCall show ?thesis by (auto dest: keeps_heap_of)
  next
    case PrototypeQuery
    have "keeps P (getPrototypeOf_trap q h0)" using a b that(1) by (rule traps_keep(2))
    with that(2) PrototypeQuery show ?thesis by (auto dest: keeps_heap_of)
  next
    case (MembershipTest n)
    have "keeps P (has_trap q n h0)" using a b that(1) by (rule traps_keep(3))
    with that(2) MembershipTest show ?thesis by (auto dest: keeps_heap_of)
  next
    case KeyEnumeration
    have "keeps P (ownKeys_trap q h0)" using a b that(1) by (rule traps_keep(4))
    with that(2) KeyEnumeration show ?thesis by (auto dest: keeps_heap_of)
  qed
  have "P h0 \<Longrightarrow> interactions k q xs h0 = Some h' \<Longrightarrow> P h'" for h0
  proof (induction xs arbitrary: h0)
    case Nil
    then show ?case by simp
  next
    case (Cons x xs)
    from Cons.prems(2) obtain h1 where 1: "interact k q x h0 = Some h1"
      and 2: "interactions k q xs h1 = Some h'"
      by (auto split: option.splits)
    from Cons.IH[OF one[OF Cons.prems(1) 1] 2] show ?case .
  qed
  from this[OF ph assms(2)] show ?thesis by (simp add: P_def)
qed


subsection \<open>Registration and merge keep the entries of revision 2\<close>

lemma assign_Throw: "assign c n v h = Throw e h' \<Longrightarrow> h' = h"
  by (auto simp: assign_def split: option.splits property.splits if_splits val.splits prim.splits)

lemma inject_2_Throw:
  assumes "inject_2 this ps h = Throw e h1"
  shows "containers h1 = containers h"
proof -
  let ?h0 = "h\<lparr>proxies := proxies h @ [lazy AllTraps this (name_of ps) ps]\<rparr>"
  let ?p = "length (proxies h)"
  have u: "inject_2 this ps h =
     (if name_of ps \<in> set ReservedFields then Throw (Error (''Reserved field name: '' @ name_of ps)) ?h0
      else if has_2 ?h0 this (name_of ps) then Throw (Error (''Duplicate service name: '' @ name_of ps)) ?h0
      else (case assign this (name_of ps) (VProxy ?p) ?h0 of
               Return _ h2 \<Rightarrow> Return this h2
             | Throw e h2 \<Rightarrow> Throw e h2
             | Diverge \<Rightarrow> Diverge))"
    by (simp add: inject_2_def Let_def new_Proxy_def fail_def)
  show ?thesis
  proof (cases "name_of ps \<in> set ReservedFields \<or> has_2 ?h0 this (name_of ps)")
    case True
    with assms u have "h1 = ?h0" by (auto split: if_splits)
    then show ?thesis by simp
  next
    case False
    show ?thesis
    proof (cases "assign this (name_of ps) (VProxy ?p) ?h0")
      case (Return x h2)
      with False assms u show ?thesis by simp
    next
      case (Throw e2 h2)
      from assign_Throw[OF Throw] Throw False assms u have "h1 = ?h0" by simp
      then show ?thesis by simp
    next
      case Diverge
      with False assms u show ?thesis by simp
    qed
  qed
qed

lemma own_update_other:
  assumes "h' = set_own c (AList.update k v (own h c)) h" and "\<not> (c' = c \<and> m = k)"
  shows "map_of (own h' c') m = map_of (own h c') m"
proof -
  have "map_of (own h' c') m =
     (if c' = c \<and> m = k \<and> c < length (containers h) then Some v else map_of (own h c') m)"
    unfolding assms(1) by (rule own_update)
  with assms(2) show ?thesis by presburger
qed

lemma inject_2_keeps_entries:
  assumes "heap_of (inject_2 this ps h) = Some h'" and "map_of (own h c) m = Some pr"
  shows "map_of (own h' c) m = Some pr"
proof (cases "inject_2 this ps h")
  case (Return t h1)
  with assms(1) have R: "inject_2 this ps h = Return t h'" by (simp add: heap_of_def)
  note r = inject_2_Return[OF R]
  from r(2) assms(2) have ne: "\<not> (c = this \<and> m = name_of ps)" by auto
  let ?h0 = "h\<lparr>proxies := proxies h @ [lazy AllTraps this (name_of ps) ps]\<rparr>"
  have o: "own ?h0 x = own h x" for x by (simp add: own_proxies_upd)
  show ?thesis
  proof (cases "name_of ps = ''__proto__'' \<and> map_of (prototypes h) this \<noteq> Some (VPrim Null)")
    case True
    with r(3) have "containers h' = containers h" by simp
    from own_cong[OF this] assms(2) show ?thesis by simp
  next
    case False
    with r(3) have e: "h' = set_own this (AList.update (name_of ps)
            (Data (VProxy (length (proxies h)))) (own ?h0 this)) ?h0"
      unfolding o by presburger
    from own_update_other[OF e ne] have "map_of (own h' c) m = map_of (own ?h0 c) m" .
    then have "map_of (own h' c) m = map_of (own h c) m" unfolding o .
    with assms(2) show ?thesis by simp
  qed
next
  case (Throw e h1)
  with assms(1) have "h1 = h'" by (simp add: heap_of_def)
  with inject_2_Throw[OF Throw] have "containers h' = containers h" by simp
  from own_cong[OF this] assms(2) show ?thesis by simp
next
  case Diverge
  with assms(1) show ?thesis by (simp add: heap_of_def)
qed

lemma eachOwn_check_find:
  "eachOwn_check this ks h =
     (case find (has_2 h this) ks of
        None \<Rightarrow> Return () h
      | Some k \<Rightarrow> Throw (Error (''Containers have duplicated keys: '' @ k)) h)"
  by (induction ks) (simp_all add: fail_def)

lemma eachOwn_check_heap:
  assumes "heap_of (eachOwn_check this ks h) = Some h'"
  shows "h' = h"
  using assms unfolding eachOwn_check_find
  by (cases "find (has_2 h this) ks") (simp_all add: heap_of_def)

lemma eachOwn_check_Return:
  assumes "eachOwn_check this ks h = Return u h'"
  shows "h' = h \<and> (\<forall>k \<in> set ks. \<not> has_2 h this k)"
proof (cases "find (has_2 h this) ks")
  case None
  with assms show ?thesis by (simp add: eachOwn_check_find find_None_iff)
next
  case (Some k)
  with assms show ?thesis by (simp add: eachOwn_check_find)
qed

lemma defineProperty_cases:
  "defineProperty this k other h = Throw TypeError h
   \<or> defineProperty this k other h
        = Return () (set_own this (AList.update k (Getter other k) (own h this)) h)"
  by (simp add: defineProperty_def split: option.splits property.splits)

lemma defineProperty_entries:
  assumes "heap_of (defineProperty this k other h) = Some h'" and "\<not> (c = this \<and> m = k)"
  shows "map_of (own h' c) m = map_of (own h c) m"
proof -
  from defineProperty_cases[of this k other h] assms(1)
  have "h' = h \<or> h' = set_own this (AList.update k (Getter other k) (own h this)) h"
    by (auto simp: heap_of_def)
  then show ?thesis
  proof
    assume "h' = h"
    then show ?thesis by simp
  next
    assume e: "h' = set_own this (AList.update k (Getter other k) (own h this)) h"
    from own_update_other[OF e assms(2)] show ?thesis .
  qed
qed

lemma eachOwn_define_entries:
  assumes "heap_of (eachOwn_define this other ks h) = Some h'" and "\<not> (c = this \<and> m \<in> set ks)"
  shows "map_of (own h' c) m = map_of (own h c) m"
  using assms
proof (induction ks arbitrary: h)
  case Nil
  then show ?case by (simp add: heap_of_def)
next
  case (Cons k ks)
  show ?case
  proof (cases "defineProperty this k other h")
    case (Return u h1)
    with Cons.prems(1) have rest: "heap_of (eachOwn_define this other ks h1) = Some h'" by simp
    from Return have "heap_of (defineProperty this k other h) = Some h1" by (simp add: heap_of_def)
    from defineProperty_entries[OF this, of c m] Cons.prems(2)
    have "map_of (own h1 c) m = map_of (own h c) m" by auto
    moreover from Cons.IH[OF rest] Cons.prems(2)
    have "map_of (own h' c) m = map_of (own h1 c) m" by auto
    ultimately show ?thesis by simp
  next
    case (Throw e h1)
    with Cons.prems(1) have "h' = h1" by (simp add: heap_of_def)
    moreover from Throw have "heap_of (defineProperty this k other h) = Some h1"
      by (simp add: heap_of_def)
    from defineProperty_entries[OF this, of c m] Cons.prems(2)
    have "map_of (own h1 c) m = map_of (own h c) m" by auto
    ultimately show ?thesis by simp
  next
    case Diverge
    with Cons.prems(1) show ?thesis by (simp add: heap_of_def)
  qed
qed

lemma injectContainer_2_keeps_entries:
  assumes "heap_of (injectContainer_2 this other h) = Some h'" and "map_of (own h c) m = Some pr"
  shows "map_of (own h' c) m = Some pr"
proof (cases "eachOwn_check this (own_keys h other) h")
  case (Return u h1)
  note r = eachOwn_check_Return[OF Return]
  from r have h1: "h1 = h" by simp
  from Return h1 assms(1)
  have d: "heap_of (eachOwn_define this other (own_keys h other) h) = Some h'"
    by (auto simp: injectContainer_2_def heap_of_def split: outcome.splits)
  have "\<not> (c = this \<and> m \<in> set (own_keys h other))"
  proof
    assume "c = this \<and> m \<in> set (own_keys h other)"
    with r have "c = this" and "\<not> has_2 h this m" by auto
    then have "map_of (own h c) m = None"
      by (simp add: has_2_def own_keys_def map_of_eq_None_iff)
    with assms(2) show False by simp
  qed
  from eachOwn_define_entries[OF d this] assms(2) show ?thesis by simp
next
  case (Throw e h1)
  then have "heap_of (eachOwn_check this (own_keys h other) h) = Some h1" by (simp add: heap_of_def)
  from eachOwn_check_heap[OF this] Throw assms(1) have "h' = h"
    by (simp add: injectContainer_2_def heap_of_def)
  with assms(2) show ?thesis by simp
next
  case Diverge
  with assms(1) show ?thesis by (simp add: injectContainer_2_def heap_of_def)
qed

text \<open>
  C10. In the \<open>get\<close>-only revisions (0, 1 and 4) the first property read through an
  uninitialised handle constructs the instance and assigns it to the property of the
  owning container, which stores it (\<open>storable\<close>: the property is no accessor, neither
  an own one nor the inherited \<open>__proto__\<close>): \<open>container.name\<close> is the instance from then
  on, not the proxy. In
  revision 2 nothing overwrites an entry: interactions with handles (method calls
  included) leave the properties of all containers as they are, and \<open>inject\<close> and
  \<open>injectContainer\<close> keep every property that exists.
\<close>

theorem first_read_replaces_entry:
  "(lookup (proxies h) p = Some px \<longrightarrow> traps px = GetOnly \<longrightarrow> \<not> truthy (inst px) \<longrightarrow>
      descriptor px = Dependency cls \<longrightarrow> owner px < length (containers h) \<longrightarrow>
      storable h (owner px) (key px) \<longrightarrow>
      (\<exists>h1. heap_of (get_trap p n h) = Some h1
         \<and> read (owner px) (key px) h1 = Return (VObject (length (objects h))) h1
         \<and> instance_of h1 p = VObject (length (objects h))
         \<and> lookup (objects h1) (length (objects h))
              = Some \<lparr>deps = owner px, data = class_fields cls, closures = [],
                      prototype = ClassPrototype cls\<rparr>))
   \<and> (all_traps h \<longrightarrow> interactions k q xs h = Some h' \<longrightarrow> containers h' = containers h)
   \<and> (heap_of (inject_2 this ps h) = Some h' \<or> heap_of (injectContainer_2 this other h) = Some h'
        \<longrightarrow> map_of (own h c) m = Some pr \<longrightarrow> map_of (own h' c) m = Some pr)"
proof (intro conjI impI)
  assume a: "lookup (proxies h) p = Some px" "traps px = GetOnly" "\<not> truthy (inst px)"
    "descriptor px = Dependency cls" "owner px < length (containers h)"
    "storable h (owner px) (key px)"
  from getInstance_4_publishes[OF a(1,3,6,5,4)] obtain h1 where
    g: "getInstance_4 p h = Return (VObject (length (objects h))) h1"
    and f: "instance_of h1 p = VObject (length (objects h))"
      "read (owner px) (key px) h1 = Return (VObject (length (objects h))) h1"
      "lookup (objects h1) (length (objects h))
                = Some \<lparr>deps = owner px, data = class_fields cls, closures = [],
                        prototype = ClassPrototype cls\<rparr>"
    by blast
  have "handler_of h p = GetOnly" using a(1,2) by (simp add: handler_of_def)
  with g have "heap_of (get_trap p n h) = Some h1"
    by (simp add: get_trap_def heap_of_def split: sum.splits)
  with f show "\<exists>h1. heap_of (get_trap p n h) = Some h1
         \<and> read (owner px) (key px) h1 = Return (VObject (length (objects h))) h1
         \<and> instance_of h1 p = VObject (length (objects h))
         \<and> lookup (objects h1) (length (objects h))
              = Some \<lparr>deps = owner px, data = class_fields cls, closures = [],
                      prototype = ClassPrototype cls\<rparr>"
    by blast
next
  assume "all_traps h" and "interactions k q xs h = Some h'"
  from interactions_keep_containers[OF this] show "containers h' = containers h" by simp
next
  assume "heap_of (inject_2 this ps h) = Some h' \<or> heap_of (injectContainer_2 this other h) = Some h'"
    and "map_of (own h c) m = Some pr"
  then show "map_of (own h' c) m = Some pr"
    using inject_2_keeps_entries injectContainer_2_keeps_entries by blast
qed


text \<open>\<open>LazyService\<close>: in revision 1 \<open>container.lazy\<close> is the instance after \<open>lazy.foo\<close> was
  read; in revision 2 it is still the proxy after \<open>lazy.foo()\<close> and after another
  registration.\<close>

theorem first_read_replaces_entry_witness:
  "lookup (proxies heapL1) 0 = Some (lazy GetOnly container0 ''lazy'' (Dependency LazyService))
   \<and> container0 < length (containers heapL1) \<and> storable heapL1 container0 ''lazy''
   \<and> read container0 ''lazy'' heapL1 = Return (VProxy 0) heapL1
   \<and> heap_of (get_trap 0 ''foo'' heapL1) = Some heapL1'
   \<and> read container0 ''lazy'' heapL1' = Return (VObject 0) heapL1'
   \<and> all_traps heapL2 \<and> interactions 1 0 [MethodCall ''foo''] heapL2 = Some heapL2'
   \<and> containers heapL2' = containers heapL2
   \<and> read container0 ''lazy'' heapL2' = Return (VProxy 0) heapL2'
   \<and> heap_of (inject_2 container0 (Dependency S1) heapL2')
        = Some (heap_after (inject_2 container0 (Dependency S1) heapL2'))
   \<and> map_of (own heapL2' container0) ''lazy'' = Some (Data (VProxy 0))
   \<and> map_of (own (heap_after (inject_2 container0 (Dependency S1) heapL2')) container0) ''lazy''
        = Some (Data (VProxy 0))"
proof -
  let ?px = "lazy GetOnly container0 ''lazy'' (Dependency LazyService)"
  let ?h3 = "heap_after (inject_2 container0 (Dependency S1) heapL2')"
  have a: "lookup (proxies heapL1) 0 = Some ?px" "traps ?px = GetOnly" "\<not> truthy (inst ?px)"
    "descriptor ?px = Dependency LazyService" "owner ?px < length (containers heapL1)"
    "storable heapL1 (owner ?px) (key ?px)"
    by (simp_all add: lazy_defs)
  have b: "owner ?px = container0" "key ?px = ''lazy''" "length (objects heapL1) = 0"
    "read container0 ''lazy'' heapL1 = Return (VProxy 0) heapL1"
    "heap_of (get_trap 0 ''foo'' heapL1) = Some heapL1'"
    by (simp_all add: lazy_defs)
  have c: "all_traps heapL2" "interactions 1 0 [MethodCall ''foo''] heapL2 = Some heapL2'"
    "read container0 ''lazy'' heapL2' = Return (VProxy 0) heapL2'"
    "heap_of (inject_2 container0 (Dependency S1) heapL2') = Some ?h3"
    "map_of (own heapL2' container0) ''lazy'' = Some (Data (VProxy 0))"
    by (simp_all add: lazy_defs all_traps_def)
  note t1 = first_read_replaces_entry[of heapL1 0 ?px LazyService "''foo''" 1 0 "[]" heapL1
      container0 "Dependency S1" container0 container0 "''lazy''" "Data (VProxy 0)"]
  note t2 = first_read_replaces_entry[of heapL2 0 ?px LazyService "''foo''" 1 0
      "[MethodCall ''foo'']" heapL2' container0 "Dependency S1" container0 container0
      "''lazy''" "Data (VProxy 0)"]
  note t3 = first_read_replaces_entry[of heapL2' 0 ?px LazyService "''foo''" 1 0
      "[]" ?h3 container0 "Dependency S1" container0 container0
      "''lazy''" "Data (VProxy 0)"]
  from t1 a b have r1: "read container0 ''lazy'' heapL1' = Return (VObject 0) heapL1'" by auto
  from t2 c have r2: "containers heapL2' = containers heapL2" by blast
  from t3 c have r3: "map_of (own ?h3 container0) ''lazy'' = Some (Data (VProxy 0))" by blast
  from a b c r1 r2 r3 show ?thesis by simp
qed

subsection \<open>Merging containers\<close>

lemma injectContainer_2_collision:
  assumes "k \<in> set (own_keys h other)" and "has_2 h this k"
  shows "\<exists>k'. k' \<in> set (own_keys h other) \<and> has_2 h this k'
           \<and> injectContainer_2 this other h
                = Throw (Error (''Containers have duplicated keys: '' @ k')) h"
proof -
  from assms obtain k' where f: "find (has_2 h this) (own_keys h other) = Some k'"
    by (cases "find (has_2 h this) (own_keys h other)") (auto simp: find_None_iff)
  then have "k' \<in> set (own_keys h other) \<and> has_2 h this k'"
    by (auto simp: find_Some_iff)
  with f show ?thesis by (auto simp: injectContainer_2_def eachOwn_check_find)
qed

lemma eachOwn_define_fresh:
  assumes "distinct ks" and "\<forall>k \<in> set ks. map_of (own h this) k = None"
    and "this < length (containers h)"
  shows "\<exists>h'. eachOwn_define this other ks h = Return () h'
           \<and> set (own_keys h' this) = set (own_keys h this) \<union> set ks
           \<and> (\<forall>k \<in> set ks. map_of (own h' this) k = Some (Getter other k))
           \<and> proxies h' = proxies h \<and> objects h' = objects h \<and> constructed h' = constructed h
           \<and> length (containers h') = length (containers h)"
  using assms
proof (induction ks arbitrary: h)
  case Nil
  then show ?case by simp
next
  case (Cons k ks)
  let ?h1 = "set_own this (AList.update k (Getter other k) (own h this)) h"
  from Cons.prems(2) have d: "defineProperty this k other h = Return () ?h1"
    by (simp add: defineProperty_def)
  have len: "this < length (containers ?h1)" using Cons.prems(3) by (simp add: containers_set_own)
  have m: "map_of (own ?h1 this) = (map_of (own h this))(k \<mapsto> Getter other k)"
    using Cons.prems(3) by (simp add: own_set_own_same update_conv')
  have fresh: "\<forall>k' \<in> set ks. map_of (own ?h1 this) k' = None"
    using Cons.prems(1,2) m by auto
  from Cons.prems(1) have dist: "distinct ks" by simp
  from Cons.IH[OF dist fresh len] obtain h' where
    r: "eachOwn_define this other ks ?h1 = Return () h'"
    and k: "set (own_keys h' this) = set (own_keys ?h1 this) \<union> set ks"
    and g: "\<forall>k \<in> set ks. map_of (own h' this) k = Some (Getter other k)"
    and s: "proxies h' = proxies ?h1" "objects h' = objects ?h1" "constructed h' = constructed ?h1"
      "length (containers h') = length (containers ?h1)"
    by blast
  have k1: "set (own_keys ?h1 this) = insert k (set (own_keys h this))"
    using Cons.prems(3) by (simp add: own_keys_def own_set_own_same dom_update)
  have "heap_of (eachOwn_define this other ks ?h1) = Some h'" using r by (simp add: heap_of_def)
  from eachOwn_define_entries[OF this, of this k] Cons.prems(1) m
  have gk: "map_of (own h' this) k = Some (Getter other k)" by simp
  from d r have "eachOwn_define this other (k # ks) h = Return () h'" by simp
  with k k1 g gk s show ?case
    by (auto simp: proxies_set_own objects_set_own constructed_set_own containers_set_own)
qed

lemma injectContainer_2_disjoint:
  assumes "\<forall>k \<in> set (own_keys h other). \<not> has_2 h this k"
    and "distinct (own_keys h other)" and "this < length (containers h)"
  shows "\<exists>h'. injectContainer_2 this other h = Return this h'
           \<and> set (own_keys h' this) = set (own_keys h this) \<union> set (own_keys h other)
           \<and> (\<forall>k \<in> set (own_keys h other). map_of (own h' this) k = Some (Getter other k))
           \<and> proxies h' = proxies h \<and> objects h' = objects h \<and> constructed h' = constructed h"
proof -
  from assms(1) have c: "eachOwn_check this (own_keys h other) h = Return () h"
    by (simp add: eachOwn_check_find find_None_iff[THEN iffD2])
  from assms(1) have "\<forall>k \<in> set (own_keys h other). map_of (own h this) k = None"
    by (simp add: has_2_def own_keys_def map_of_eq_None_iff)
  from eachOwn_define_fresh[OF assms(2) this assms(3), of other] c show ?thesis
    by (auto simp: injectContainer_2_def)
qed

text \<open>
  C3, at a failing input of revision 3. The target holds a service named
  \<open>hasOwnProperty\<close> and the source holds \<open>s1\<close>: the names are disjoint. In revision 3
  \<open>has(this, key)\<close> calls \<open>this.hasOwnProperty\<close>, which is the handle of that service and
  not a function, so \<open>injectContainer\<close> throws a type error and the target keeps its one
  entry instead of exposing both. Revision 2, which calls
  \<open>Object.prototype.hasOwnProperty\<close>, merges the same two containers.
\<close>

theorem merge_fails_on_hasOwnProperty:
  "inject_3 0 (Named ''hasOwnProperty'' (Literal [] [])) heapM0
     = Return 0 (heap_after (inject_3 0 (Named ''hasOwnProperty'' (Literal [] [])) heapM0))
   \<and> inject_3 1 (Dependency S1)
        (heap_after (inject_3 0 (Named ''hasOwnProperty'' (Literal [] [])) heapM0))
     = Return 1 heapM3
   \<and> own_keys heapM3 0 = [''hasOwnProperty''] \<and> own_keys heapM3 1 = [''s1'']
   \<and> injectContainer_3 0 1 heapM3 = Throw TypeError heapM3
   \<and> own_keys heapM2 0 = [''hasOwnProperty''] \<and> own_keys heapM2 1 = [''s1'']
   \<and> returned (injectContainer_2 0 1 heapM2) = Some 0
   \<and> own_keys (heap_after (injectContainer_2 0 1 heapM2)) 0 = [''hasOwnProperty'', ''s1'']"
  by (simp add: test_defs heapM0_def heapM3_def heapM2_def injectContainer_3_def
      injectContainer_2_def defineProperty_def)

end
